theory Spec2Isabelle
  imports Complex_Main "HOL-Library.Multiset"
begin

section \<open>Data model\<close>

text \<open>
  The program is \<^verbatim>\<open>examples/kfac_pre.py\<close>, a script over NumPy arrays, written for
  Python 2: it imports \<^verbatim>\<open>division\<close> from \<^verbatim>\<open>__future__\<close> and calls
  \<^verbatim>\<open>map(append_samples, all_samples, new_samples)\<close> for its effect. So \<^verbatim>\<open>map\<close> is
  evaluated eagerly and returns a list, and \<^verbatim>\<open>map(f, xs, ys)\<close> pads the shorter list with
  \<^verbatim>\<open>None\<close>.

  Numbers are modelled as real numbers: rounding and overflow of 64-bit floats are not
  represented. The one place where the script itself produces values outside the reals,
  the division of an array by a zero sample count, is represented by the value
  \<open>NanArr\<close> below.

  A two-dimensional array carries its shape and its rows; the shape is stored
  separately because an array with no rows still has a column count.
\<close>

datatype ndarray = NDArray (nrows: nat) (ncols: nat) (elems: "real list list")

definition wf_array :: "ndarray \<Rightarrow> bool" where
  "wf_array a = (length (elems a) = nrows a \<and> list_all (\<lambda>r. length r = ncols a) (elems a))"

definition entry :: "ndarray \<Rightarrow> nat \<Rightarrow> nat \<Rightarrow> real" where
  "entry a i j = elems a ! i ! j"

definition mk_array :: "nat \<Rightarrow> nat \<Rightarrow> (nat \<Rightarrow> nat \<Rightarrow> real) \<Rightarrow> ndarray" where
  "mk_array r c f = NDArray r c (map (\<lambda>i. map (f i) [0..<c]) [0..<r])"

definition isum :: "nat \<Rightarrow> (nat \<Rightarrow> real) \<Rightarrow> real" where
  "isum n f = sum_list (map f [0..<n])"

definition same_shape :: "ndarray \<Rightarrow> ndarray \<Rightarrow> bool" where
  "same_shape a b = (nrows a = nrows b \<and> ncols a = ncols b)"

text \<open>
  Outcomes. A Python exception ends the call. \<open>failure + 'a\<close> is the result type of
  every operation that can raise; \<open>Inl\<close> carries the exception.
\<close>

datatype failure = IndexError | ValueError | TypeError | ZeroDivisionError | UnboundLocalError

fun ebind :: "failure + 'a \<Rightarrow> ('a \<Rightarrow> failure + 'b) \<Rightarrow> failure + 'b" where
  "ebind (Inl e) f = Inl e"
| "ebind (Inr x) f = f x"

text \<open>Python 2 \<^verbatim>\<open>map(f, xs)\<close>: applies \<open>f\<close> left to right, the first exception ends it.\<close>

fun emap :: "('a \<Rightarrow> failure + 'b) \<Rightarrow> 'a list \<Rightarrow> failure + 'b list" where
  "emap f [] = Inr []"
| "emap f (x # xs) = ebind (f x) (\<lambda>y. ebind (emap f xs) (\<lambda>ys. Inr (y # ys)))"

text \<open>
  Python 2 \<^verbatim>\<open>map(f, xs, ys)\<close>: the shorter list is padded with \<^verbatim>\<open>None\<close>; the functions
  mapped here multiply their arguments by a float, which raises \<^verbatim>\<open>TypeError\<close> on \<^verbatim>\<open>None\<close>.
\<close>

fun emap2 :: "('a \<Rightarrow> 'b \<Rightarrow> failure + 'c) \<Rightarrow> 'a list \<Rightarrow> 'b list \<Rightarrow> failure + 'c list" where
  "emap2 f [] [] = Inr []"
| "emap2 f (x # xs) (y # ys) = ebind (f x y) (\<lambda>z. ebind (emap2 f xs ys) (\<lambda>zs. Inr (z # zs)))"
| "emap2 f [] (y # ys) = Inl TypeError"
| "emap2 f (x # xs) [] = Inl TypeError"

text \<open>
  The values the factor code computes with: a Python number (\<^verbatim>\<open>sum\<close> of an empty list
  is the integer 0), a finite array, and an array of the given shape none of whose
  entries is finite (what NumPy returns, with a warning and no exception, for an array
  divided by zero: \<^verbatim>\<open>0/0\<close> is nan and \<^verbatim>\<open>x/0\<close> is an infinity). Adding to or scaling
  such an array leaves every entry non-finite.
\<close>

datatype pyval = Num real | Arr ndarray | NanArr nat nat

section \<open>NumPy operations\<close>

definition map_array :: "(real \<Rightarrow> real) \<Rightarrow> ndarray \<Rightarrow> ndarray" where
  "map_array f a = mk_array (nrows a) (ncols a) (\<lambda>i j. f (entry a i j))"

text \<open>Broadcasting of one axis: equal lengths, or one of them is 1.\<close>

definition bdim :: "nat \<Rightarrow> nat \<Rightarrow> nat option" where
  "bdim m n = (if m = n then Some m else if m = 1 then Some n else if n = 1 then Some m else None)"

definition bshape :: "nat \<times> nat \<Rightarrow> nat \<times> nat \<Rightarrow> (nat \<times> nat) option" where
  "bshape s t = (case (bdim (fst s) (fst t), bdim (snd s) (snd t)) of
                   (Some r, Some c) \<Rightarrow> Some (r, c)
                 | _ \<Rightarrow> None)"

definition bentry :: "ndarray \<Rightarrow> nat \<Rightarrow> nat \<Rightarrow> real" where
  "bentry a i j = entry a (if nrows a = 1 then 0 else i) (if ncols a = 1 then 0 else j)"

definition broadcast :: "(real \<Rightarrow> real \<Rightarrow> real) \<Rightarrow> ndarray \<Rightarrow> ndarray \<Rightarrow> failure + ndarray" where
  "broadcast f a b = (case bshape (nrows a, ncols a) (nrows b, ncols b) of
                        None \<Rightarrow> Inl ValueError
                      | Some (r, c) \<Rightarrow> Inr (mk_array r c (\<lambda>i j. f (bentry a i j) (bentry b i j))))"

text \<open>An array of shape \<open>(r, c)\<close> with non-finite entries; with no entry it is the empty array.\<close>

definition nan_array :: "nat \<Rightarrow> nat \<Rightarrow> pyval" where
  "nan_array r c = (if r = 0 \<or> c = 0 then Arr (mk_array r c (\<lambda>i j. 0)) else NanArr r c)"

definition nan_broadcast :: "nat \<times> nat \<Rightarrow> nat \<times> nat \<Rightarrow> failure + pyval" where
  "nan_broadcast s t = (case bshape s t of
                          None \<Rightarrow> Inl ValueError
                        | Some (r, c) \<Rightarrow> Inr (nan_array r c))"

text \<open>\<^verbatim>\<open>x + y\<close> on the values above.\<close>

fun py_add :: "pyval \<Rightarrow> pyval \<Rightarrow> failure + pyval" where
  "py_add (Num x) (Num y) = Inr (Num (x + y))"
| "py_add (Num x) (Arr b) = Inr (Arr (map_array (\<lambda>y. x + y) b))"
| "py_add (Arr a) (Num y) = Inr (Arr (map_array (\<lambda>x. x + y) a))"
| "py_add (Arr a) (Arr b) = ebind (broadcast (+) a b) (\<lambda>c. Inr (Arr c))"
| "py_add (Num x) (NanArr r c) = Inr (NanArr r c)"
| "py_add (NanArr r c) (Num y) = Inr (NanArr r c)"
| "py_add (Arr a) (NanArr r c) = nan_broadcast (nrows a, ncols a) (r, c)"
| "py_add (NanArr r c) (Arr b) = nan_broadcast (r, c) (nrows b, ncols b)"
| "py_add (NanArr r c) (NanArr r' c') = nan_broadcast (r, c) (r', c')"

text \<open>\<^verbatim>\<open>k * x\<close> for a float \<open>k\<close>.\<close>

fun py_scale :: "real \<Rightarrow> pyval \<Rightarrow> pyval" where
  "py_scale k (Num x) = Num (k * x)"
| "py_scale k (Arr a) = Arr (map_array (\<lambda>x. k * x) a)"
| "py_scale k (NanArr r c) = NanArr r c"

text \<open>
  \<^verbatim>\<open>x / n\<close> for a Python integer \<open>n\<close>, under \<^verbatim>\<open>from __future__ import division\<close>.
  A Python number divided by zero raises; an array divided by zero does not.
\<close>

fun py_div :: "pyval \<Rightarrow> nat \<Rightarrow> failure + pyval" where
  "py_div (Num x) n = (if n = 0 then Inl ZeroDivisionError else Inr (Num (x / real n)))"
| "py_div (Arr a) n = (if n = 0 then Inr (nan_array (nrows a) (ncols a))
                       else Inr (Arr (map_array (\<lambda>x. x / real n) a)))"
| "py_div (NanArr r c) n = Inr (NanArr r c)"

text \<open>The builtin \<^verbatim>\<open>sum\<close>: starts from the integer 0 and adds from the left.\<close>

fun py_sum_from :: "pyval \<Rightarrow> pyval list \<Rightarrow> failure + pyval" where
  "py_sum_from acc [] = Inr acc"
| "py_sum_from acc (x # xs) = ebind (py_add acc x) (\<lambda>acc'. py_sum_from acc' xs)"

definition py_sum :: "pyval list \<Rightarrow> failure + pyval" where
  "py_sum xs = py_sum_from (Num 0) xs"

text \<open>\<^verbatim>\<open>np.dot\<close> of two-dimensional arrays, \<^verbatim>\<open>x.T\<close>, \<^verbatim>\<open>np.eye\<close>.\<close>

definition dot :: "ndarray \<Rightarrow> ndarray \<Rightarrow> failure + ndarray" where
  "dot a b = (if ncols a \<noteq> nrows b then Inl ValueError
              else Inr (mk_array (nrows a) (ncols b)
                     (\<lambda>i j. isum (ncols a) (\<lambda>k. entry a i k * entry b k j))))"

definition transposed :: "ndarray \<Rightarrow> ndarray" where
  "transposed a = mk_array (ncols a) (nrows a) (\<lambda>i j. entry a j i)"

definition eye :: "nat \<Rightarrow> ndarray" where
  "eye n = mk_array n n (\<lambda>i j. if i = j then 1 else 0)"

section \<open>General utility functions\<close>

text \<open>
  The random number generator. \<^verbatim>\<open>npr.rand(r, c)\<close> draws \<open>r * c\<close> numbers, uniform in
  \<open>[0, 1)\<close>, from the global generator and advances it. The state of the generator is
  modelled as the sequence of the draws still to come; a fixed seed is a fixed sequence.
\<close>

type_synonym rng = "nat \<Rightarrow> real"

definition npr_rand :: "nat \<Rightarrow> nat \<Rightarrow> rng \<Rightarrow> ndarray \<times> rng" where
  "npr_rand r c g = (mk_array r c (\<lambda>i j. g (i * c + j)), \<lambda>k. g (k + r * c))"

text \<open>\<^verbatim>\<open>np.cumsum(a, axis=1)\<close>: running sums along each row.\<close>

definition cumsum :: "ndarray \<Rightarrow> ndarray" where
  "cumsum a = mk_array (nrows a) (ncols a) (\<lambda>i j. isum (j + 1) (\<lambda>k. entry a i k))"

text \<open>
  \<^verbatim>\<open>np.sum(a > b, axis=1)\<close>: the comparison broadcasts, the sum counts the true entries
  of each row.
\<close>

definition count_greater :: "ndarray \<Rightarrow> ndarray \<Rightarrow> failure + nat list" where
  "count_greater a b = (case bshape (nrows a, ncols a) (nrows b, ncols b) of
                          None \<Rightarrow> Inl ValueError
                        | Some (r, c) \<Rightarrow>
                            Inr (map (\<lambda>i. length (filter (\<lambda>j. bentry a i j > bentry b i j) [0..<c])) [0..<r]))"

text \<open>\<^verbatim>\<open>a[indices]\<close> for a list of row indices; an index out of range raises.\<close>

definition take_rows :: "ndarray \<Rightarrow> nat list \<Rightarrow> failure + ndarray" where
  "take_rows a indices =
     (if list_all (\<lambda>k. k < nrows a) indices
      then Inr (mk_array (length indices) (ncols a) (\<lambda>i j. entry a (indices ! i) j))
      else Inl IndexError)"

text \<open>
  \<^verbatim>\<open>sample_discrete_from_log\<close>:
  \<^verbatim>\<open>probs = np.exp(logprobs); cumvals = np.cumsum(probs, axis=1);
  indices = np.sum(npr.rand(logprobs.shape[0], 1) > cumvals, axis=1);
  return np.eye(logprobs.shape[1])[indices]\<close>.
  The model also returns the generator after the draws.
\<close>

definition sample_discrete_from_log :: "ndarray \<Rightarrow> rng \<Rightarrow> failure + (ndarray \<times> rng)" where
  "sample_discrete_from_log logprobs g =
     (let probs = map_array exp logprobs;
          cumvals = cumsum probs;
          (u, g') = npr_rand (nrows logprobs) 1 g
      in ebind (count_greater u cumvals) (\<lambda>indices.
         ebind (take_rows (eye (ncols logprobs)) indices) (\<lambda>onehot.
         Inr (onehot, g'))))"

text \<open>\<^verbatim>\<open>np.sum(a)\<close>: the sum of all entries.\<close>

definition np_sum :: "ndarray \<Rightarrow> real" where
  "np_sum a = isum (nrows a) (\<lambda>i. isum (ncols a) (\<lambda>j. entry a i j))"

section \<open>K-FAC utility functions\<close>

text \<open>
  A layer's parameters are a weight matrix and a bias vector (a one-dimensional array,
  which broadcasts as a single row). One pass of the loop body computes
  \<^verbatim>\<open>s = np.dot(all_activations[-1], W) + b + extra_bias\<close>.
\<close>

definition row_view :: "real list \<Rightarrow> ndarray" where
  "row_view b = NDArray 1 (length b) [b]"

definition pre_activation :: "ndarray \<Rightarrow> ndarray \<times> real list \<Rightarrow> ndarray \<Rightarrow> failure + ndarray" where
  "pre_activation activations Wb extra_bias =
     ebind (dot activations (fst Wb)) (\<lambda>d.
     ebind (broadcast (+) d (row_view (snd Wb))) (\<lambda>db.
     broadcast (+) db extra_bias))"

text \<open>
  The loop of \<^verbatim>\<open>neural_net_predict_and_activations\<close> over
  \<^verbatim>\<open>zip(params, extra_biases)\<close>. Its state is the list \<^verbatim>\<open>all_activations\<close> (never empty:
  it starts as \<^verbatim>\<open>[inputs]\<close>) and the variable \<^verbatim>\<open>s\<close>, unbound before the first pass.
\<close>

fun net_loop ::
  "((ndarray \<times> real list) \<times> ndarray) list \<Rightarrow> ndarray list \<Rightarrow> ndarray option
     \<Rightarrow> failure + (ndarray list \<times> ndarray option)" where
  "net_loop [] all_activations s = Inr (all_activations, s)"
| "net_loop ((Wb, extra_bias) # rest) all_activations s =
     ebind (pre_activation (last all_activations) Wb extra_bias) (\<lambda>s'.
     net_loop rest (all_activations @ [map_array tanh s']) (Some s'))"

text \<open>
  \<^verbatim>\<open>logsumexp(s, axis=1, keepdims=True)\<close> of SciPy: the logarithm of each row's sum of
  exponentials, as a column. The row maximum it subtracts first for numerical stability
  cancels over the reals; the maximum of an empty row raises.
\<close>

definition logsumexp :: "ndarray \<Rightarrow> failure + ndarray" where
  "logsumexp s = (if ncols s = 0 then Inl ValueError
                  else Inr (mk_array (nrows s) 1 (\<lambda>i j. ln (isum (ncols s) (\<lambda>k. exp (entry s i k))))))"

text \<open>
  After the loop: \<^verbatim>\<open>logprobs = s - logsumexp(s, axis=1, keepdims=True)\<close> and
  \<^verbatim>\<open>return logprobs, all_activations[:-1]\<close>. With no layer, \<^verbatim>\<open>s\<close> is unbound.
\<close>

definition neural_net_predict_and_activations ::
  "ndarray list \<Rightarrow> (ndarray \<times> real list) list \<Rightarrow> ndarray \<Rightarrow> failure + (ndarray \<times> ndarray list)" where
  "neural_net_predict_and_activations extra_biases params inputs =
     ebind (net_loop (zip params extra_biases) [inputs] None) (\<lambda>(all_activations, last_s).
       case last_s of
         None \<Rightarrow> Inl UnboundLocalError
       | Some s \<Rightarrow>
           ebind (logsumexp s) (\<lambda>lse.
           ebind (broadcast (-) s lse) (\<lambda>logprobs.
           Inr (logprobs, butlast all_activations))))"

text \<open>
  \<^verbatim>\<open>getval\<close> of autograd returns the value of its argument and leaves it out of the
  differentiation trace; on values it is the identity.
\<close>

definition getval :: "ndarray \<Rightarrow> ndarray" where
  "getval x = x"

text \<open>
  \<^verbatim>\<open>model_predictive_log_likelihood\<close>: the log-likelihood of targets sampled from the
  model, and the activations.
\<close>

definition model_predictive_log_likelihood ::
  "ndarray list \<Rightarrow> (ndarray \<times> real list) list \<Rightarrow> ndarray \<Rightarrow> rng
     \<Rightarrow> failure + ((real \<times> ndarray list) \<times> rng)" where
  "model_predictive_log_likelihood extra_biases params inputs g =
     ebind (neural_net_predict_and_activations extra_biases params inputs) (\<lambda>(logprobs, activations).
     ebind (sample_discrete_from_log (getval logprobs) g) (\<lambda>(model_sampled_targets, g').
     ebind (broadcast (*) logprobs model_sampled_targets) (\<lambda>prod.
     Inr ((np_sum prod, activations), g'))))"

text \<open>
  The perturbations that \<^verbatim>\<open>collect_activations_and_grad_samples\<close> builds:
  \<^verbatim>\<open>extra_biases = [np.zeros((inputs.shape[0], b.shape[0])) for W, b in params]\<close>.
  The gradient it then takes with autograd's \<^verbatim>\<open>grad_and_aux\<close> is outside this model.
\<close>

definition zero_extra_biases :: "(ndarray \<times> real list) list \<Rightarrow> ndarray \<Rightarrow> ndarray list" where
  "zero_extra_biases params inputs =
     map (\<lambda>Wb. mk_array (nrows inputs) (length (snd Wb)) (\<lambda>i j. 0)) params"

section \<open>Bookkeeping for samples\<close>

text \<open>
  \<^verbatim>\<open>append_samples\<close> appends, in place, each new layer batch to that layer's list;
  \<^verbatim>\<open>zip\<close> stops at the shorter list. The model returns the lists after the call.
\<close>

fun append_samples :: "'a list list \<Rightarrow> 'a list \<Rightarrow> 'a list list" where
  "append_samples (layer_samples # all_samples) (new_layer_samples # new_samples) =
     (layer_samples @ [new_layer_samples]) # append_samples all_samples new_samples"
| "append_samples all_samples [] = all_samples"
| "append_samples [] new_samples = []"

text \<open>
  \<^verbatim>\<open>init_sample_lists\<close> returns \<^verbatim>\<open>[[[] for _ in layer_sizes[:-1]] for _ in range(2)]\<close>:
  a list of two lists, which \<^verbatim>\<open>update_factor_estimates\<close> unpacks as
  \<^verbatim>\<open>a_samples, g_samples\<close>; the model returns the pair.
\<close>

definition init_sample_lists :: "nat list \<Rightarrow> ndarray list list \<times> ndarray list list" where
  "init_sample_lists layer_sizes =
     (map (\<lambda>_. []) (butlast layer_sizes), map (\<lambda>_. []) (butlast layer_sizes))"

section \<open>Bookkeeping for Kronecker factor estimates\<close>

text \<open>\<^verbatim>\<open>append_homog_coord = lambda x: np.hstack((x, np.ones((x.shape[0], 1))))\<close>\<close>

definition append_homog_coord :: "ndarray \<Rightarrow> ndarray" where
  "append_homog_coord x =
     mk_array (nrows x) (ncols x + 1) (\<lambda>i j. if j < ncols x then entry x i j else 1)"

definition identity :: "ndarray \<Rightarrow> ndarray" where
  "identity x = x"

text \<open>\<^verbatim>\<open>sumsq = lambda samples: np.dot(samples.T, samples)\<close>\<close>

definition sumsq :: "ndarray \<Rightarrow> failure + ndarray" where
  "sumsq samples = dot (transposed samples) samples"

text \<open>
  \<^verbatim>\<open>layer_sumsq = lambda layer_samples: sum(map(sumsq, map(homog, layer_samples))) / num_samples\<close>
\<close>

definition layer_sumsq :: "(ndarray \<Rightarrow> ndarray) \<Rightarrow> nat \<Rightarrow> ndarray list \<Rightarrow> failure + pyval" where
  "layer_sumsq homog num_samples layer_samples =
     ebind (emap sumsq (map homog layer_samples)) (\<lambda>sqs.
     ebind (py_sum (map Arr sqs)) (\<lambda>total.
     py_div total num_samples))"

text \<open>
  \<^verbatim>\<open>num_samples = sum(samples.shape[0] for samples in all_samples[0])\<close>: the count is
  read from the first layer's batches; \<^verbatim>\<open>all_samples[0]\<close> raises on an empty list.
\<close>

definition estimate_block_kron_factors :: "ndarray list list \<Rightarrow> bool \<Rightarrow> failure + pyval list" where
  "estimate_block_kron_factors all_samples append_homog =
     (case all_samples of
        [] \<Rightarrow> Inl IndexError
      | first # rest \<Rightarrow>
          let num_samples = sum_list (map nrows first);
              homog = (if append_homog then append_homog_coord else identity)
          in emap (layer_sumsq homog num_samples) all_samples)"

text \<open>\<^verbatim>\<open>update = lambda old, new: eps*old + (1.-eps)*new\<close>\<close>

definition update :: "real \<Rightarrow> pyval \<Rightarrow> pyval \<Rightarrow> failure + pyval" where
  "update eps old new = py_add (py_scale eps old) (py_scale (1 - eps) new)"

fun update_factor_estimates ::
  "pyval list \<times> pyval list \<Rightarrow> ndarray list list \<times> ndarray list list \<Rightarrow> real
     \<Rightarrow> failure + (pyval list \<times> pyval list)" where
  "update_factor_estimates (As, Gs) (a_samples, g_samples) eps =
     ebind (estimate_block_kron_factors a_samples True) (\<lambda>Ahats.
     ebind (estimate_block_kron_factors g_samples False) (\<lambda>Ghats.
     ebind (emap2 (update eps) As Ahats) (\<lambda>As'.
     ebind (emap2 (update eps) Gs Ghats) (\<lambda>Gs'.
     Inr (As', Gs')))))"

text \<open>The default of the keyword argument \<^verbatim>\<open>eps=0.05\<close>.\<close>

definition eps_default :: real where
  "eps_default = 5 / 100"

definition update_factor_estimates_default ::
  "pyval list \<times> pyval list \<Rightarrow> ndarray list list \<times> ndarray list list
     \<Rightarrow> failure + (pyval list \<times> pyval list)" where
  "update_factor_estimates_default old_estimates samples =
     update_factor_estimates old_estimates samples eps_default"

text \<open>
  \<^verbatim>\<open>init_factor_estimates\<close>: \<^verbatim>\<open>map(np.eye, layer_sizes[:-1] + 1), map(np.eye, layer_sizes[1:])\<close>.
\<close>

definition init_factor_estimates :: "nat list \<Rightarrow> pyval list \<times> pyval list" where
  "init_factor_estimates layer_sizes =
     (map (\<lambda>n. Arr (eye (n + 1))) (butlast layer_sizes), map (\<lambda>n. Arr (eye n)) (tl layer_sizes))"

section \<open>Objects and references\<close>

text \<open>
  Python lists hold references to array objects. To tell an update in place from a fresh
  result, the store is modelled as the list of all objects allocated so far; a reference
  is a position in it, and allocation appends.

  \<^verbatim>\<open>update_factor_estimates\<close> contains no assignment to an element or a slice and no
  in-place operator: \<^verbatim>\<open>eps*old + (1.-eps)*new\<close>, \<^verbatim>\<open>np.dot\<close>, \<^verbatim>\<open>np.hstack\<close> and the
  division each return a newly allocated array, and \<^verbatim>\<open>map\<close> returns a new list. So the
  call reads the matrices behind the references of \<^verbatim>\<open>old_estimates\<close>, computes as
  \<open>update_factor_estimates\<close> above, and allocates the matrices it returns (arrays
  allocated on the way and dropped are left out of the store).
\<close>

type_synonym ref = nat

type_synonym heap = "pyval list"

fun alloc_all :: "heap \<Rightarrow> pyval list \<Rightarrow> ref list \<times> heap" where
  "alloc_all h [] = ([], h)"
| "alloc_all h (v # vs) = (let (rs, h') = alloc_all (h @ [v]) vs in (length h # rs, h'))"

definition update_factor_estimates_heap ::
  "heap \<Rightarrow> ref list \<times> ref list \<Rightarrow> ndarray list list \<times> ndarray list list \<Rightarrow> real
     \<Rightarrow> failure + ((ref list \<times> ref list) \<times> heap)" where
  "update_factor_estimates_heap h old_estimates samples eps =
     ebind (update_factor_estimates
              (map (\<lambda>r. h ! r) (fst old_estimates), map (\<lambda>r. h ! r) (snd old_estimates)) samples eps)
       (\<lambda>new_estimates.
          let (As', h1) = alloc_all h (fst new_estimates);
              (Gs', h2) = alloc_all h1 (snd new_estimates)
          in Inr ((As', Gs'), h2))"

text \<open>
  The script's step \<^verbatim>\<open>factor_estimates = update_factor_estimates(factor_estimates, all_samples)\<close>:
  the variable is bound to what the call returns. The state is the store and the variable.
\<close>

definition main_update ::
  "heap \<times> (ref list \<times> ref list) \<Rightarrow> ndarray list list \<times> ndarray list list
     \<Rightarrow> failure + (heap \<times> (ref list \<times> ref list))" where
  "main_update state all_samples =
     ebind (update_factor_estimates_heap (fst state) (snd state) all_samples eps_default)
       (\<lambda>r. Inr (snd r, fst r))"

section \<open>The forward pass on the store\<close>

text \<open>
  \<^verbatim>\<open>neural_net_predict_and_activations\<close> with its arguments as references: the perturbations
  and the input batch are arrays in the store, a parameter is a pair of references to a
  weight matrix and to a bias vector. The function body contains no assignment to an element
  or a slice and no in-place operator; its only mutation is \<^verbatim>\<open>all_activations.append\<close> on
  the list it created itself. \<^verbatim>\<open>all_activations = [inputs]\<close> holds the reference of the input
  batch, not a copy; each \<^verbatim>\<open>np.tanh(s)\<close> and the final \<^verbatim>\<open>logprobs\<close> are newly allocated
  arrays (the arrays allocated on the way and dropped, such as \<^verbatim>\<open>s\<close>, are left out of the
  store), and \<^verbatim>\<open>all_activations[:-1]\<close> is a new list of the same references.
\<close>

record store =
  mats :: "ndarray list"
  vecs :: "real list list"

definition get_mats :: "store \<Rightarrow> ref list \<Rightarrow> ndarray list" where
  "get_mats st rs = map (\<lambda>r. mats st ! r) rs"

definition get_params :: "store \<Rightarrow> (ref \<times> ref) list \<Rightarrow> (ndarray \<times> real list) list" where
  "get_params st ps = map (\<lambda>(W, b). (mats st ! W, vecs st ! b)) ps"

fun net_loop_store ::
  "store \<Rightarrow> ((ref \<times> ref) \<times> ref) list \<Rightarrow> ref list \<Rightarrow> ndarray option
     \<Rightarrow> failure + (store \<times> ref list \<times> ndarray option)" where
  "net_loop_store st [] all_activations s = Inr (st, all_activations, s)"
| "net_loop_store st (((W, b), extra_bias) # rest) all_activations s =
     ebind (pre_activation (mats st ! last all_activations) (mats st ! W, vecs st ! b)
              (mats st ! extra_bias))
       (\<lambda>s'. net_loop_store (st\<lparr>mats := mats st @ [map_array tanh s']\<rparr>) rest
                (all_activations @ [length (mats st)]) (Some s'))"

definition neural_net_predict_and_activations_store ::
  "store \<Rightarrow> ref list \<Rightarrow> (ref \<times> ref) list \<Rightarrow> ref \<Rightarrow> failure + ((ref \<times> ref list) \<times> store)" where
  "neural_net_predict_and_activations_store st extra_biases params inputs =
     ebind (net_loop_store st (zip params extra_biases) [inputs] None)
       (\<lambda>(st1, all_activations, last_s).
          case last_s of
            None \<Rightarrow> Inl UnboundLocalError
          | Some s \<Rightarrow>
              ebind (logsumexp s) (\<lambda>lse.
              ebind (broadcast (-) s lse) (\<lambda>logprobs.
                Inr ((length (mats st1), butlast all_activations),
                     st1\<lparr>mats := mats st1 @ [logprobs]\<rparr>))))"

section \<open>Specification-side definitions\<close>

text \<open>
  The blend of the specification's update rule,
  \<^verbatim>\<open>new_estimate = eps * old_estimate + (1 - eps) * fresh_estimate\<close>, entry by entry
  on two matrices of one shape.
\<close>

definition blend :: "real \<Rightarrow> ndarray \<Rightarrow> ndarray \<Rightarrow> ndarray" where
  "blend eps old fresh =
     mk_array (nrows old) (ncols old) (\<lambda>i j. eps * entry old i j + (1 - eps) * entry fresh i j)"

text \<open>The shape of a value; a Python number has none.\<close>

fun shape_of :: "pyval \<Rightarrow> (nat \<times> nat) option" where
  "shape_of (Arr m) = Some (nrows m, ncols m)"
| "shape_of (NanArr r c) = Some (r, c)"
| "shape_of (Num x) = None"

text \<open>
  The sum of outer products of the rows of a batch, \<open>x\<^sup>T x\<close>, and the estimate the
  specification describes: the sum of these over the batches of a layer, divided by a
  sample count.
\<close>

definition gram :: "ndarray \<Rightarrow> ndarray" where
  "gram x = mk_array (ncols x) (ncols x) (\<lambda>i j. isum (nrows x) (\<lambda>k. entry x k i * entry x k j))"

definition total_rows :: "ndarray list \<Rightarrow> nat" where
  "total_rows bs = sum_list (map nrows bs)"

definition uniform_layer :: "ndarray list \<Rightarrow> bool" where
  "uniform_layer bs = (bs \<noteq> [] \<and> list_all (\<lambda>b. ncols b = ncols (hd bs)) bs)"

definition homog_of :: "bool \<Rightarrow> ndarray \<Rightarrow> ndarray" where
  "homog_of append_homog = (if append_homog then append_homog_coord else identity)"

definition second_moment :: "ndarray list \<Rightarrow> nat \<Rightarrow> ndarray" where
  "second_moment bs n =
     mk_array (ncols (hd bs)) (ncols (hd bs))
       (\<lambda>i j. sum_list (map (\<lambda>b. entry (gram b) i j) bs) / real n)"

text \<open>
  The estimate with each layer's sum divided by that layer's own number of sample rows.
\<close>

definition per_layer_moments :: "ndarray list list \<Rightarrow> bool \<Rightarrow> pyval list" where
  "per_layer_moments all_samples append_homog =
     map (\<lambda>bs. Arr (second_moment (map (homog_of append_homog) bs) (total_rows bs))) all_samples"

text \<open>
  Symmetric positive semi-definite matrices: square, equal to the transpose, and with a
  non-negative quadratic form \<open>v\<^sup>T M v\<close> for every vector \<open>v\<close>.
\<close>

definition quad_form :: "ndarray \<Rightarrow> (nat \<Rightarrow> real) \<Rightarrow> real" where
  "quad_form m v = isum (nrows m) (\<lambda>i. isum (ncols m) (\<lambda>j. v i * entry m i j * v j))"

definition symmetric :: "ndarray \<Rightarrow> bool" where
  "symmetric m = (nrows m = ncols m \<and> (\<forall>i<nrows m. \<forall>j<ncols m. entry m i j = entry m j i))"

definition psd :: "ndarray \<Rightarrow> bool" where
  "psd m = (\<forall>v. 0 \<le> quad_form m v)"

definition spsd :: "ndarray \<Rightarrow> bool" where
  "spsd m = (symmetric m \<and> psd m)"


text \<open>
  Values that stay positive semi-definite under broadcasting: a matrix as above, or a
  non-negative number (added to a matrix it is a non-negative multiple of the all-ones
  matrix).
\<close>

fun psd_val :: "pyval \<Rightarrow> bool" where
  "psd_val (Num x) = (0 \<le> x)"
| "psd_val (Arr m) = spsd m"
| "psd_val (NanArr r c) = False"

text \<open>A value that holds no finite entry: non-finite entries, or no entry at all.\<close>

fun no_finite_estimate :: "pyval \<Rightarrow> bool" where
  "no_finite_estimate (NanArr r c) = True"
| "no_finite_estimate (Arr m) = (nrows m = 0 \<or> ncols m = 0)"
| "no_finite_estimate (Num x) = False"

text \<open>
  Sampling. The cumulative probabilities of row \<open>i\<close>; the first bin whose cumulative
  probability is at least the draw, and the first bin whose cumulative probability
  exceeds the draw; rows of log-probabilities whose probabilities sum to 1; draws in
  \<open>[0, 1)\<close>.
\<close>

definition cum_row :: "ndarray \<Rightarrow> nat \<Rightarrow> real list" where
  "cum_row logprobs i =
     map (\<lambda>j. isum (j + 1) (\<lambda>k. exp (entry logprobs i k))) [0..<ncols logprobs]"

definition first_bin_reaching :: "real list \<Rightarrow> real \<Rightarrow> nat" where
  "first_bin_reaching cums u = length (takeWhile (\<lambda>c. c < u) cums)"

definition first_bin_exceeding :: "real list \<Rightarrow> real \<Rightarrow> nat" where
  "first_bin_exceeding cums u = length (takeWhile (\<lambda>c. c \<le> u) cums)"

definition normalized_rows :: "ndarray \<Rightarrow> bool" where
  "normalized_rows logprobs =
     list_all (\<lambda>i. isum (ncols logprobs) (\<lambda>j. exp (entry logprobs i j)) = 1) [0..<nrows logprobs]"

definition uniform_draws :: "nat \<Rightarrow> rng \<Rightarrow> bool" where
  "uniform_draws n g = list_all (\<lambda>k. 0 \<le> g k \<and> g k < 1) [0..<n]"

text \<open>
  The forward pass. A network of consistent shapes for a batch of \<open>n\<close> rows and input
  width \<open>d\<close>: each weight matrix has as many rows as the layer's input has columns, the
  bias and the perturbation have the layer's width, and the perturbation has the rows of
  the batch (as \<^verbatim>\<open>collect_activations_and_grad_samples\<close> builds it) or a single row (the
  shape of the bias).
\<close>

fun net_shapes_ok :: "nat \<Rightarrow> nat \<Rightarrow> ((ndarray \<times> real list) \<times> ndarray) list \<Rightarrow> bool" where
  "net_shapes_ok n d [] = True"
| "net_shapes_ok n d (((W, b), extra_bias) # rest) =
     (nrows W = d \<and> length b = ncols W \<and> ncols extra_bias = ncols W \<and>
      (nrows extra_bias = n \<or> nrows extra_bias = 1) \<and> net_shapes_ok n (ncols W) rest)"

text \<open>
  What the forward pass is to compute, written entry by entry and without the array
  operations of the program. A layer maps its input \<open>x\<close> to \<open>x W + b + extra_bias\<close>, where the
  bias is added to every row and a perturbation of a single row likewise; the next layer's
  input is the hyperbolic tangent of that, entry by entry. \<open>layer_inputs\<close> lists the input
  of every layer, \<open>last_pre_activation\<close> is what the last layer yields before the
  nonlinearity, and \<open>log_softmax\<close> subtracts from every entry the logarithm of the sum of
  the exponentials of its row.
\<close>

definition affine :: "ndarray \<Rightarrow> ndarray \<times> real list \<Rightarrow> ndarray \<Rightarrow> ndarray" where
  "affine x Wb extra_bias =
     mk_array (nrows x) (ncols (fst Wb))
       (\<lambda>i j. (\<Sum>k<ncols x. entry x i k * entry (fst Wb) k j) + snd Wb ! j +
              entry extra_bias (if nrows extra_bias = 1 then 0 else i) j)"

definition squash :: "ndarray \<Rightarrow> ndarray" where
  "squash s = mk_array (nrows s) (ncols s) (\<lambda>i j. tanh (entry s i j))"

fun layer_inputs :: "ndarray \<Rightarrow> ((ndarray \<times> real list) \<times> ndarray) list \<Rightarrow> ndarray list" where
  "layer_inputs x [] = []"
| "layer_inputs x ((Wb, extra_bias) # rest) = x # layer_inputs (squash (affine x Wb extra_bias)) rest"

fun last_pre_activation :: "ndarray \<Rightarrow> ((ndarray \<times> real list) \<times> ndarray) list \<Rightarrow> ndarray" where
  "last_pre_activation x [] = x"
| "last_pre_activation x [(Wb, extra_bias)] = affine x Wb extra_bias"
| "last_pre_activation x ((Wb, extra_bias) # z # rest) =
     last_pre_activation (squash (affine x Wb extra_bias)) (z # rest)"

definition log_softmax :: "ndarray \<Rightarrow> ndarray" where
  "log_softmax s =
     mk_array (nrows s) (ncols s) (\<lambda>i j. entry s i j - ln (\<Sum>k<ncols s. exp (entry s i k)))"

text \<open>
  The references handed to the forward pass point into the store. \<open>deref_layers\<close> reads
  the arrays behind the references of the zipped layers; \<open>example_store\<close> holds a batch of
  one example, a network of two layers and its two zero perturbations.
\<close>

definition refs_ok :: "store \<Rightarrow> ref list \<Rightarrow> (ref \<times> ref) list \<Rightarrow> ref \<Rightarrow> bool" where
  "refs_ok st extra_biases params inputs =
     (list_all (\<lambda>r. r < length (mats st)) extra_biases \<and>
      list_all (\<lambda>Wb. fst Wb < length (mats st) \<and> snd Wb < length (vecs st)) params \<and>
      inputs < length (mats st))"

definition deref_layers ::
  "store \<Rightarrow> ((ref \<times> ref) \<times> ref) list \<Rightarrow> ((ndarray \<times> real list) \<times> ndarray) list" where
  "deref_layers st zs = map (\<lambda>z. ((mats st ! fst (fst z), vecs st ! snd (fst z)), mats st ! snd z)) zs"

definition example_store :: store where
  "example_store = \<lparr>mats = [NDArray 1 1 [[1]], NDArray 1 1 [[0]], NDArray 1 2 [[1, 1]],
                  NDArray 1 1 [[0]], NDArray 1 2 [[0, 0]]],
          vecs = [[0], [ln 4, 0]]\<rparr>"

text \<open>
  Permuting the examples of a batch. \<open>p\<close> lists the old positions of the new rows; the
  draw of an example moves with its row when the first draws of the generator are
  permuted the same way. The log-likelihood is the first component of what
  \<open>model_predictive_log_likelihood\<close> returns.
\<close>

definition is_permutation :: "nat list \<Rightarrow> nat \<Rightarrow> bool" where
  "is_permutation p n = (mset p = mset [0..<n])"

definition permute_rows :: "nat list \<Rightarrow> ndarray \<Rightarrow> ndarray" where
  "permute_rows p a = mk_array (length p) (ncols a) (\<lambda>i j. entry a (p ! i) j)"

definition permute_draws :: "nat list \<Rightarrow> rng \<Rightarrow> rng" where
  "permute_draws p g = (\<lambda>k. if k < length p then g (p ! k) else g k)"

definition log_likelihood_of :: "failure + ((real \<times> ndarray list) \<times> rng) \<Rightarrow> failure + real" where
  "log_likelihood_of r = map_sum id (\<lambda>x. fst (fst x)) r"

section \<open>Basic facts about arrays\<close>

lemma isum_sum: "isum n f = (\<Sum>k<n. f k)"
  by (simp add: isum_def interv_sum_list_conv_sum_set_nat atLeast0LessThan)

lemma nrows_mk_array [simp]: "nrows (mk_array r c f) = r"
  by (simp add: mk_array_def)

lemma ncols_mk_array [simp]: "ncols (mk_array r c f) = c"
  by (simp add: mk_array_def)

lemma wf_mk_array [simp]: "wf_array (mk_array r c f)"
  by (simp add: wf_array_def mk_array_def list_all_iff)

lemma entry_mk_array [simp]: "i < r \<Longrightarrow> j < c \<Longrightarrow> entry (mk_array r c f) i j = f i j"
  by (simp add: entry_def mk_array_def)

lemma mk_array_cong:
  assumes "\<And>i j. i < r \<Longrightarrow> j < c \<Longrightarrow> f i j = g i j"
  shows "mk_array r c f = mk_array r c g"
  using assms by (simp add: mk_array_def)

lemma wf_array_eq_mk:
  assumes "wf_array a"
  shows "a = mk_array (nrows a) (ncols a) (entry a)"
proof -
  have len: "length (elems a) = nrows a"
    and row: "\<And>i. i < nrows a \<Longrightarrow> length (elems a ! i) = ncols a"
    using assms by (auto simp: wf_array_def list_all_iff)
  have "elems a = map (\<lambda>i. map (entry a i) [0..<ncols a]) [0..<nrows a]"
  proof (rule nth_equalityI)
    show "length (elems a) = length (map (\<lambda>i. map (entry a i) [0..<ncols a]) [0..<nrows a])"
      by (simp add: len)
  next
    fix i assume "i < length (elems a)"
    then have i: "i < nrows a" by (simp add: len)
    have "elems a ! i = map (entry a i) [0..<ncols a]"
      by (rule nth_equalityI) (simp_all add: row [OF i] entry_def)
    with i show "elems a ! i = map (\<lambda>i. map (entry a i) [0..<ncols a]) [0..<nrows a] ! i"
      by simp
  qed
  then show ?thesis
    by (cases a) (simp add: mk_array_def)
qed

lemma array_eqI:
  assumes "wf_array a" "wf_array b" "nrows a = nrows b" "ncols a = ncols b"
    and "\<And>i j. i < nrows a \<Longrightarrow> j < ncols a \<Longrightarrow> entry a i j = entry b i j"
  shows "a = b"
proof -
  have "a = mk_array (nrows a) (ncols a) (entry a)"
    by (rule wf_array_eq_mk) fact
  also have "\<dots> = mk_array (nrows b) (ncols b) (entry b)"
    using assms(3-5) by (auto intro: mk_array_cong)
  also have "\<dots> = b"
    by (rule wf_array_eq_mk [symmetric]) fact
  finally show ?thesis .
qed

lemma bshape_same [simp]: "bshape (r, c) (r, c) = Some (r, c)"
  by (simp add: bshape_def bdim_def)

lemma bentry_in_range:
  "i < nrows a \<Longrightarrow> j < ncols a \<Longrightarrow> bentry a i j = entry a i j"
  by (auto simp: bentry_def)

lemma broadcast_same_shape:
  assumes "same_shape a b"
  shows "broadcast f a b = Inr (mk_array (nrows a) (ncols a) (\<lambda>i j. f (entry a i j) (entry b i j)))"
proof -
  have "mk_array (nrows a) (ncols a) (\<lambda>i j. f (bentry a i j) (bentry b i j)) =
        mk_array (nrows a) (ncols a) (\<lambda>i j. f (entry a i j) (entry b i j))"
    using assms by (intro mk_array_cong) (simp add: bentry_in_range same_shape_def)
  then show ?thesis
    using assms by (simp add: broadcast_def same_shape_def)
qed

lemma nrows_map_array [simp]: "nrows (map_array f a) = nrows a"
  by (simp add: map_array_def)

lemma ncols_map_array [simp]: "ncols (map_array f a) = ncols a"
  by (simp add: map_array_def)

lemma wf_map_array [simp]: "wf_array (map_array f a)"
  by (simp add: map_array_def)

lemma entry_map_array [simp]:
  "i < nrows a \<Longrightarrow> j < ncols a \<Longrightarrow> entry (map_array f a) i j = f (entry a i j)"
  by (simp add: map_array_def)

lemma update_same_shape:
  assumes "same_shape old new"
  shows "update eps (Arr old) (Arr new) = Inr (Arr (blend eps old new))"
proof -
  have s: "same_shape (map_array ((*) eps) old) (map_array ((*) (1 - eps)) new)"
    using assms by (simp add: same_shape_def)
  have "mk_array (nrows old) (ncols old)
          (\<lambda>i j. entry (map_array ((*) eps) old) i j + entry (map_array ((*) (1 - eps)) new) i j) =
        mk_array (nrows old) (ncols old)
          (\<lambda>i j. eps * entry old i j + (1 - eps) * entry new i j)"
    using assms by (intro mk_array_cong) (simp add: same_shape_def)
  then show ?thesis
    by (simp add: update_def broadcast_same_shape [OF s] blend_def)
qed


lemma emap2_update_same_shape:
  "list_all2 same_shape olds news \<Longrightarrow>
     emap2 (update eps) (map Arr olds) (map Arr news) = Inr (map Arr (map2 (blend eps) olds news))"
  by (induction olds news rule: list_all2_induct) (simp_all add: update_same_shape)

lemma blend_one: "wf_array old \<Longrightarrow> blend 1 old new = old"
  by (rule array_eqI) (simp_all add: blend_def)

lemma blend_zero: "wf_array new \<Longrightarrow> same_shape old new \<Longrightarrow> blend 0 old new = new"
  by (rule array_eqI) (simp_all add: blend_def same_shape_def)

lemma wf_eye [simp]: "wf_array (eye n)"
  by (simp add: eye_def)

section \<open>Sums of outer products\<close>

lemma isum_cong: "(\<And>k. k < n \<Longrightarrow> f k = g k) \<Longrightarrow> isum n f = isum n g"
  by (simp add: isum_sum)

lemma nrows_transposed [simp]: "nrows (transposed a) = ncols a"
  by (simp add: transposed_def)

lemma ncols_transposed [simp]: "ncols (transposed a) = nrows a"
  by (simp add: transposed_def)

lemma entry_transposed [simp]:
  "i < ncols a \<Longrightarrow> j < nrows a \<Longrightarrow> entry (transposed a) i j = entry a j i"
  by (simp add: transposed_def)

lemma sumsq_gram: "sumsq x = Inr (gram x)"
proof -
  have "mk_array (ncols x) (ncols x) (\<lambda>i j. isum (nrows x) (\<lambda>k. entry (transposed x) i k * entry x k j)) =
        gram x"
    unfolding gram_def by (intro mk_array_cong isum_cong) simp
  then show ?thesis
    by (simp add: sumsq_def dot_def)
qed

lemma emap_sumsq: "emap sumsq xs = Inr (map gram xs)"
  by (induction xs) (simp_all add: sumsq_gram)

lemma layer_sumsq_eq:
  "layer_sumsq homog n bs =
     ebind (py_sum (map (\<lambda>b. Arr (gram (homog b))) bs)) (\<lambda>total. py_div total n)"
  by (simp add: layer_sumsq_def emap_sumsq comp_def)

section \<open>Positive semi-definite matrices\<close>

lemma quad_form_mk_array:
  "quad_form (mk_array r c f) v = (\<Sum>i<r. \<Sum>j<c. v i * f i j * v j)"
  by (simp add: quad_form_def isum_sum)

lemma quad_form_sum: "quad_form m v = (\<Sum>i<nrows m. \<Sum>j<ncols m. v i * entry m i j * v j)"
  by (simp add: quad_form_def isum_sum)











lemma spsd_scale:
  assumes "spsd a" "0 \<le> k"
  shows "spsd (map_array (\<lambda>y. k * y) a)"
proof -
  have "quad_form (map_array (\<lambda>y. k * y) a) v = k * quad_form a v" for v
    by (simp add: map_array_def quad_form_mk_array quad_form_sum sum_distrib_left mult_ac)
  then have "psd (map_array (\<lambda>y. k * y) a)"
    using assms by (simp add: psd_def spsd_def)
  moreover have "symmetric (map_array (\<lambda>y. k * y) a)"
    using assms by (simp add: symmetric_def spsd_def map_array_def)
  ultimately show ?thesis by (simp add: spsd_def)
qed



lemma psd_val_py_scale: "psd_val a \<Longrightarrow> 0 \<le> k \<Longrightarrow> psd_val (py_scale k a)"
  by (cases a) (simp_all add: spsd_scale)


section \<open>The estimate on batches of one width\<close>

lemma nrows_gram [simp]: "nrows (gram x) = ncols x"
  by (simp add: gram_def)

lemma ncols_gram [simp]: "ncols (gram x) = ncols x"
  by (simp add: gram_def)

lemma entry_gram: "i < ncols b \<Longrightarrow> j < ncols b \<Longrightarrow>
    entry (gram b) i j = (\<Sum>k<nrows b. entry b k i * entry b k j)"
  by (simp add: gram_def isum_sum)

lemma wf_gram [simp]: "wf_array (gram x)"
  by (simp add: gram_def)

lemma py_sum_from_Arr:
  assumes "wf_array a" "list_all (same_shape a) ms"
  shows "py_sum_from (Arr a) (map Arr ms) =
         Inr (Arr (mk_array (nrows a) (ncols a)
                    (\<lambda>i j. entry a i j + sum_list (map (\<lambda>m. entry m i j) ms))))"
  using assms
proof (induction ms arbitrary: a)
  case Nil
  then show ?case
    using wf_array_eq_mk [of a] by simp
next
  case (Cons m ms)
  define a' where "a' = mk_array (nrows a) (ncols a) (\<lambda>i j. entry a i j + entry m i j)"
  have s: "same_shape a m" and rest: "list_all (same_shape a) ms"
    using Cons.prems by simp_all
  have add: "py_add (Arr a) (Arr m) = Inr (Arr a')"
    by (simp add: broadcast_same_shape [OF s] a'_def)
  have "list_all (same_shape a') ms"
    using rest by (simp add: a'_def same_shape_def list_all_iff)
  then have "py_sum_from (Arr a') (map Arr ms) =
      Inr (Arr (mk_array (nrows a') (ncols a') (\<lambda>i j. entry a' i j + sum_list (map (\<lambda>m. entry m i j) ms))))"
    by (intro Cons.IH) (simp add: a'_def)
  also have "mk_array (nrows a') (ncols a') (\<lambda>i j. entry a' i j + sum_list (map (\<lambda>m. entry m i j) ms)) =
      mk_array (nrows a) (ncols a) (\<lambda>i j. entry a i j + sum_list (map (\<lambda>m. entry m i j) (m # ms)))"
    unfolding a'_def nrows_mk_array ncols_mk_array
    by (intro mk_array_cong) simp
  finally show ?case
    by (simp add: add del: py_add.simps)
qed

lemma py_sum_uniform:
  assumes "ms \<noteq> []" "list_all (\<lambda>m. nrows m = d \<and> ncols m = d) ms"
  shows "py_sum (map Arr ms) = Inr (Arr (mk_array d d (\<lambda>i j. sum_list (map (\<lambda>m. entry m i j) ms))))"
proof -
  from assms obtain m ms' where ms: "ms = m # ms'" and m: "nrows m = d" "ncols m = d"
    and rest: "list_all (\<lambda>m. nrows m = d \<and> ncols m = d) ms'"
    by (cases ms) auto
  define a where "a = map_array (\<lambda>y. 0 + y) m"
  have first: "py_add (Num 0) (Arr m) = Inr (Arr a)"
    unfolding a_def by (simp only: py_add.simps)
  have "list_all (same_shape a) ms'"
    using rest m by (simp add: a_def same_shape_def list_all_iff)
  then have "py_sum_from (Arr a) (map Arr ms') =
      Inr (Arr (mk_array (nrows a) (ncols a) (\<lambda>i j. entry a i j + sum_list (map (\<lambda>m. entry m i j) ms'))))"
    by (intro py_sum_from_Arr) (simp add: a_def)
  also have "mk_array (nrows a) (ncols a) (\<lambda>i j. entry a i j + sum_list (map (\<lambda>m. entry m i j) ms')) =
      mk_array d d (\<lambda>i j. sum_list (map (\<lambda>m. entry m i j) ms))"
    unfolding a_def nrows_map_array ncols_map_array m
    by (intro mk_array_cong) (simp add: ms m)
  finally show ?thesis
    by (simp add: py_sum_def ms first del: py_add.simps)
qed

lemma layer_sumsq_uniform:
  assumes "bs \<noteq> []" "list_all (\<lambda>b. ncols (homog b) = ncols (homog (hd bs))) bs" "0 < n"
  shows "layer_sumsq homog n bs = Inr (Arr (second_moment (map homog bs) n))"
proof -
  define d where "d = ncols (homog (hd bs))"
  have ne: "map (\<lambda>b. gram (homog b)) bs \<noteq> []"
    using assms(1) by simp
  have sh: "list_all (\<lambda>m. nrows m = d \<and> ncols m = d) (map (\<lambda>b. gram (homog b)) bs)"
    using assms(2) by (simp add: list_all_iff d_def)
  have hd: "ncols (hd (map homog bs)) = d"
    using assms(1) by (simp add: d_def hd_map)
  have "py_sum (map (\<lambda>b. Arr (gram (homog b))) bs) =
        Inr (Arr (mk_array d d (\<lambda>i j. sum_list (map (\<lambda>m. entry m i j) (map (\<lambda>b. gram (homog b)) bs)))))"
    using py_sum_uniform [OF ne sh] by (simp add: comp_def)
  moreover have "map_array (\<lambda>x. x / real n)
          (mk_array d d (\<lambda>i j. sum_list (map (\<lambda>m. entry m i j) (map (\<lambda>b. gram (homog b)) bs)))) =
        second_moment (map homog bs) n"
    unfolding second_moment_def hd map_array_def nrows_mk_array ncols_mk_array
    by (intro mk_array_cong) (simp add: comp_def)
  ultimately show ?thesis
    using assms(3) by (simp add: layer_sumsq_eq)
qed

lemma emap_all_Inr: "(\<And>x. x \<in> set xs \<Longrightarrow> f x = Inr (g x)) \<Longrightarrow> emap f xs = Inr (map g xs)"
  by (induction xs) simp_all

section \<open>Factor estimates stay positive semi-definite\<close>


lemma py_add_Arr_Arr_is_Arr: "py_add (Arr a) (Arr b) = Inr x \<Longrightarrow> \<exists>c. x = Arr c"
  by (cases "broadcast (+) a b") auto

lemma py_sum_from_Arr_is_Arr:
  "py_sum_from (Arr a) (map Arr ms) = Inr t \<Longrightarrow> \<exists>m. t = Arr m"
proof (induction ms arbitrary: a)
  case Nil
  then show ?case by auto
next
  case (Cons m ms)
  from Cons.prems obtain x where x: "py_add (Arr a) (Arr m) = Inr x"
    and t: "py_sum_from x (map Arr ms) = Inr t"
    by (cases "py_add (Arr a) (Arr m)") (auto simp del: py_add.simps)
  from py_add_Arr_Arr_is_Arr [OF x] obtain c where "x = Arr c" ..
  with t Cons.IH show ?case by simp
qed

lemma py_sum_Arr_cases:
  assumes "py_sum (map Arr ms) = Inr t"
  shows "(ms = [] \<and> t = Num 0) \<or> (\<exists>m. t = Arr m)"
proof (cases ms)
  case Nil
  with assms show ?thesis by (simp add: py_sum_def)
next
  case (Cons m ms')
  with assms have "py_sum_from (Arr (map_array ((+) 0) m)) (map Arr ms') = Inr t"
    by (simp add: py_sum_def)
  from py_sum_from_Arr_is_Arr [OF this] show ?thesis by simp
qed


lemma emap_Inr_all:
  "emap f xs = Inr ys \<Longrightarrow> length ys = length xs \<and> (\<forall>i<length xs. f (xs ! i) = Inr (ys ! i))"
proof (induction xs arbitrary: ys)
  case Nil
  then show ?case by simp
next
  case (Cons x xs)
  from Cons.prems obtain y ys' where y: "f x = Inr y" and ys': "emap f xs = Inr ys'" and ys: "ys = y # ys'"
    by (cases "f x"; cases "emap f xs") auto
  from Cons.IH [OF ys'] y ys show ?case
    by (auto simp: nth_Cons split: nat.splits)
qed




section \<open>A zero sample count\<close>

lemma no_finite_estimate_nan_array [simp]: "no_finite_estimate (nan_array r c)"
  by (simp add: nan_array_def)

lemma layer_sumsq_zero:
  assumes "layer_sumsq homog 0 bs = Inr v"
  shows "no_finite_estimate v"
proof -
  from assms obtain total where
    total: "py_sum (map Arr (map (\<lambda>b. gram (homog b)) bs)) = Inr total" and v: "py_div total 0 = Inr v"
    by (cases "py_sum (map (\<lambda>b. Arr (gram (homog b))) bs)") (auto simp: layer_sumsq_eq comp_def)
  from py_sum_Arr_cases [OF total] v show ?thesis
    by auto
qed

lemma estimate_zero:
  assumes "all_samples = first # rest" "total_rows first = 0"
    "estimate_block_kron_factors all_samples append_homog = Inr vs"
  shows "list_all no_finite_estimate vs"
proof -
  define homog where "homog = (if append_homog then append_homog_coord else identity)"
  have n: "sum_list (map nrows first) = 0"
    using assms(2) unfolding total_rows_def .
  have e: "emap (layer_sumsq homog 0) all_samples = Inr vs"
    using assms(3) unfolding assms(1) estimate_block_kron_factors_def list.case Let_def n homog_def .
  from emap_Inr_all [OF e] have len: "length vs = length all_samples"
    and each: "\<And>i. i < length all_samples \<Longrightarrow> layer_sumsq homog 0 (all_samples ! i) = Inr (vs ! i)"
    by simp_all
  show ?thesis
    using layer_sumsq_zero [OF each] len by (simp add: list_all_length)
qed

lemma total_rows_pos: "0 < total_rows bs \<Longrightarrow> list_ex (\<lambda>b. 0 < nrows b) bs"
  by (induction bs) (auto simp: total_rows_def)

lemma estimate_init_sample_lists:
  "estimate_block_kron_factors (map (\<lambda>_. []) xs) h =
     Inl (if xs = [] then IndexError else ZeroDivisionError)"
  by (cases xs) (simp_all add: estimate_block_kron_factors_def layer_sumsq_def py_sum_def)

section \<open>Shapes after one batch\<close>

lemma append_samples_fresh:
  "length bs = length xs \<Longrightarrow> append_samples (map (\<lambda>_. []) xs) bs = map (\<lambda>b. [b]) bs"
  by (induction xs arbitrary: bs) (auto simp: length_Suc_conv)

lemma shape_of_nan_array [simp]: "shape_of (nan_array r c) = Some (r, c)"
  by (simp add: nan_array_def)

lemma layer_sumsq_single:
  "\<exists>v. layer_sumsq homog n [b] = Inr v \<and> shape_of v = Some (ncols (homog b), ncols (homog b))"
  by (simp add: layer_sumsq_eq py_sum_def)

lemma update_shape:
  assumes "shape_of new = Some (nrows old, ncols old)"
  shows "\<exists>r. update eps (Arr old) new = Inr r \<and> shape_of r = Some (nrows old, ncols old)"
proof (cases new)
  case (Num x)
  with assms show ?thesis by simp
next
  case (Arr m)
  with assms have "same_shape old m" by (simp add: same_shape_def)
  then show ?thesis by (simp add: Arr update_same_shape blend_def)
next
  case (NanArr r c)
  with assms show ?thesis by (simp add: update_def nan_broadcast_def)
qed

lemma emap_total:
  "list_all (\<lambda>x. \<exists>y. f x = Inr y \<and> P x y) xs \<Longrightarrow> \<exists>ys. emap f xs = Inr ys \<and> list_all2 P xs ys"
  by (induction xs) auto

lemma emap2_total:
  "list_all2 (\<lambda>x y. \<exists>z. f x y = Inr z \<and> P x z) xs ys \<Longrightarrow>
     \<exists>zs. emap2 f xs ys = Inr zs \<and> list_all2 P xs zs"
  by (induction xs ys rule: list_all2_induct) auto

lemma estimate_single_batches:
  assumes "bs \<noteq> []"
  shows "\<exists>vs. estimate_block_kron_factors (map (\<lambda>b. [b]) bs) h = Inr vs \<and>
           list_all2 (\<lambda>b v. shape_of v = Some (ncols (homog_of h b), ncols (homog_of h b))) bs vs"
proof -
  define n where "n = nrows (hd bs)"
  have "list_all (\<lambda>l. \<exists>v. layer_sumsq (homog_of h) n l = Inr v \<and>
            shape_of v = Some (ncols (homog_of h (hd l)), ncols (homog_of h (hd l)))) (map (\<lambda>b. [b]) bs)"
    using layer_sumsq_single [of "homog_of h" n] by (simp add: list_all_iff)
  from emap_total [OF this] obtain vs where
    vs: "emap (layer_sumsq (homog_of h) n) (map (\<lambda>b. [b]) bs) = Inr vs" and
    sh: "list_all2 (\<lambda>l v. shape_of v = Some (ncols (homog_of h (hd l)), ncols (homog_of h (hd l))))
           (map (\<lambda>b. [b]) bs) vs"
    by blast
  have "estimate_block_kron_factors (map (\<lambda>b. [b]) bs) h = Inr vs"
    using assms vs by (cases bs) (simp_all add: estimate_block_kron_factors_def n_def homog_of_def)
  moreover have "list_all2 (\<lambda>b v. shape_of v = Some (ncols (homog_of h b), ncols (homog_of h b))) bs vs"
    using sh by (simp add: list_all2_map1)
  ultimately show ?thesis by blast
qed

lemma update_all_shapes:
  assumes "list_all2 (\<lambda>d v. shape_of v = Some (d, d)) ds vs"
  shows "\<exists>rs. emap2 (update eps) (map (\<lambda>d. Arr (eye d)) ds) vs = Inr rs \<and>
           map shape_of rs = map shape_of (map (\<lambda>d. Arr (eye d)) ds)"
proof -
  have "list_all2 (\<lambda>old v. \<exists>r. update eps old v = Inr r \<and> shape_of r = shape_of old)
          (map (\<lambda>d. Arr (eye d)) ds) vs"
    using assms update_shape [of _ "eye _" eps]
    by (auto simp: list_all2_map1 eye_def elim!: list_all2_mono)
  from emap2_total [OF this] obtain rs where
    "emap2 (update eps) (map (\<lambda>d. Arr (eye d)) ds) vs = Inr rs"
    "list_all2 (\<lambda>old r. shape_of r = shape_of old) (map (\<lambda>d. Arr (eye d)) ds) rs"
    by blast
  then show ?thesis
    by (auto simp: list_all2_conv_all_nth intro!: nth_equalityI)
qed

lemma update_after_one_batch:
  assumes "2 \<le> length layer_sizes"
    "list_all2 (\<lambda>d b. ncols b = d) (butlast layer_sizes) a_batches"
    "list_all2 (\<lambda>d b. ncols b = d) (tl layer_sizes) g_batches"
  shows "\<exists>As' Gs'. update_factor_estimates (init_factor_estimates layer_sizes)
           (append_samples (fst (init_sample_lists layer_sizes)) a_batches,
            append_samples (snd (init_sample_lists layer_sizes)) g_batches) eps = Inr (As', Gs') \<and>
         map shape_of As' = map shape_of (fst (init_factor_estimates layer_sizes)) \<and>
         map shape_of Gs' = map shape_of (snd (init_factor_estimates layer_sizes))"
proof -
  have la: "length a_batches = length (butlast layer_sizes)"
    and lg: "length g_batches = length (butlast layer_sizes)"
    using assms(2,3) by (auto dest: list_all2_lengthD)
  have ne: "a_batches \<noteq> []" "g_batches \<noteq> []"
    using assms(1) la lg by auto
  from estimate_single_batches [OF ne(1), of True] obtain Ahats where
    Ahats: "estimate_block_kron_factors (map (\<lambda>b. [b]) a_batches) True = Inr Ahats" and
    sa: "list_all2 (\<lambda>b v. shape_of v = Some (ncols (homog_of True b), ncols (homog_of True b))) a_batches Ahats"
    by blast
  from estimate_single_batches [OF ne(2), of False] obtain Ghats where
    Ghats: "estimate_block_kron_factors (map (\<lambda>b. [b]) g_batches) False = Inr Ghats" and
    sg: "list_all2 (\<lambda>b v. shape_of v = Some (ncols (homog_of False b), ncols (homog_of False b))) g_batches Ghats"
    by blast
  have "list_all2 (\<lambda>d v. shape_of v = Some (d, d)) (map (\<lambda>n. n + 1) (butlast layer_sizes)) Ahats"
    using assms(2) sa
    by (auto simp: list_all2_conv_all_nth homog_of_def append_homog_coord_def)
  from update_all_shapes [OF this, of eps] obtain As' where
    As': "emap2 (update eps) (map (\<lambda>n. Arr (eye (n + 1))) (butlast layer_sizes)) Ahats = Inr As'"
      "map shape_of As' = map shape_of (map (\<lambda>n. Arr (eye (n + 1))) (butlast layer_sizes))"
    by (auto simp: comp_def)
  have "list_all2 (\<lambda>d v. shape_of v = Some (d, d)) (tl layer_sizes) Ghats"
    using assms(3) sg
    by (auto simp: list_all2_conv_all_nth homog_of_def identity_def)
  from update_all_shapes [OF this, of eps] obtain Gs' where
    Gs': "emap2 (update eps) (map (\<lambda>n. Arr (eye n)) (tl layer_sizes)) Ghats = Inr Gs'"
      "map shape_of Gs' = map shape_of (map (\<lambda>n. Arr (eye n)) (tl layer_sizes))"
    by auto
  show ?thesis
    using Ahats Ghats As' Gs' la lg
    by (simp add: init_factor_estimates_def init_sample_lists_def append_samples_fresh)
qed

section \<open>Sampling by the inverse cumulative distribution\<close>

lemma nrows_cumsum [simp]: "nrows (cumsum a) = nrows a"
  by (simp add: cumsum_def)

lemma ncols_cumsum [simp]: "ncols (cumsum a) = ncols a"
  by (simp add: cumsum_def)

lemma entry_cumsum_exp:
  "i < nrows a \<Longrightarrow> j < ncols a \<Longrightarrow>
     entry (cumsum (map_array exp a)) i j = isum (j + 1) (\<lambda>k. exp (entry a i k))"
  by (simp add: cumsum_def isum_sum)

lemma filter_takeWhile_sorted:
  "sorted xs \<Longrightarrow> filter (\<lambda>c. c < u) xs = takeWhile (\<lambda>c. c < u) xs" for u :: real
proof (induction xs)
  case Nil
  then show ?case by simp
next
  case (Cons x xs)
  show ?case
  proof (cases "x < u")
    case True
    with Cons show ?thesis by simp
  next
    case False
    with Cons.prems have "\<forall>y\<in>set xs. \<not> y < u" by auto
    with False show ?thesis by (simp add: filter_empty_conv)
  qed
qed

lemma sorted_cum_row: "sorted (cum_row lp i)"
proof -
  have "isum (j + 1) (\<lambda>k. exp (entry lp i k)) \<le> isum (j' + 1) (\<lambda>k. exp (entry lp i k))"
    if "j \<le> j'" for j j'
    unfolding isum_sum using that by (intro sum_mono2) auto
  then show ?thesis
    unfolding cum_row_def by (simp add: sorted_map sorted_wrt_iff_nth_less)
qed

lemma count_greater_draws:
  "count_greater (fst (npr_rand (nrows lp) 1 g)) (cumsum (map_array exp lp)) =
     Inr (map (\<lambda>i. first_bin_reaching (cum_row lp i) (g i)) [0..<nrows lp])"
proof -
  have b: "bshape (nrows lp, Suc 0) (nrows lp, ncols lp) = Some (nrows lp, ncols lp)"
    by (simp add: bshape_def bdim_def)
  have "length (filter (\<lambda>j. bentry (mk_array (nrows lp) 1 (\<lambda>i j. g (i * 1 + j))) i j
                          > bentry (cumsum (map_array exp lp)) i j) [0..<ncols lp]) =
        first_bin_reaching (cum_row lp i) (g i)" if i: "i < nrows lp" for i
  proof -
    have u: "bentry (mk_array (nrows lp) 1 (\<lambda>i j. g (i * 1 + j))) i j = g i" for j
      using i by (auto simp: bentry_def)
    have c: "bentry (cumsum (map_array exp lp)) i j = isum (j + 1) (\<lambda>k. exp (entry lp i k))"
      if "j < ncols lp" for j
      using i that by (simp add: bentry_in_range entry_cumsum_exp)
    have "filter (\<lambda>j. bentry (mk_array (nrows lp) 1 (\<lambda>i j. g (i * 1 + j))) i j
                          > bentry (cumsum (map_array exp lp)) i j) [0..<ncols lp] =
          filter (\<lambda>j. isum (j + 1) (\<lambda>k. exp (entry lp i k)) < g i) [0..<ncols lp]"
      by (rule filter_cong) (use u c in simp_all)
    then have "length (filter (\<lambda>j. bentry (mk_array (nrows lp) 1 (\<lambda>i j. g (i * 1 + j))) i j
                          > bentry (cumsum (map_array exp lp)) i j) [0..<ncols lp]) =
          length (filter (\<lambda>c. c < g i) (cum_row lp i))"
      by (simp add: cum_row_def filter_map comp_def)
    then show ?thesis
      by (simp add: first_bin_reaching_def filter_takeWhile_sorted [OF sorted_cum_row])
  qed
  then show ?thesis
    by (simp add: count_greater_def npr_rand_def b)
qed

lemma first_bin_reaching_less:
  assumes "cums \<noteq> []" "u \<le> last cums"
  shows "first_bin_reaching cums u < length cums"
proof -
  have "last cums \<in> set cums" using assms(1) by simp
  with assms(2) have "\<not> (\<forall>c\<in>set cums. c < u)" by (auto simp: not_less)
  then have "takeWhile (\<lambda>c. c < u) cums \<noteq> cums"
    by (simp add: takeWhile_eq_all_conv)
  moreover have "length (takeWhile (\<lambda>c. c < u) cums) \<le> length cums"
    by (rule length_takeWhile_le)
  moreover have "takeWhile (\<lambda>c. c < u) cums = cums"
    if "length (takeWhile (\<lambda>c. c < u) cums) = length cums"
    using that takeWhile_dropWhile_id [of "\<lambda>c. c < u" cums]
    by (metis append_eq_conv_conj take_all_iff order_refl)
  ultimately show ?thesis
    unfolding first_bin_reaching_def by (meson le_neq_implies_less)
qed

lemma first_bin_in_range:
  assumes "normalized_rows lp" "uniform_draws (nrows lp) g" "i < nrows lp"
  shows "first_bin_reaching (cum_row lp i) (g i) < ncols lp"
proof -
  have one: "isum (ncols lp) (\<lambda>j. exp (entry lp i j)) = 1"
    using assms(1,3) by (simp add: normalized_rows_def list_all_iff)
  then have pos: "0 < ncols lp"
    by (cases "ncols lp") (simp_all add: isum_def)
  then have ne: "cum_row lp i \<noteq> []"
    by (simp add: cum_row_def)
  have "last (cum_row lp i) = isum (ncols lp - 1 + 1) (\<lambda>k. exp (entry lp i k))"
    using pos by (simp add: cum_row_def last_map)
  with one pos have "last (cum_row lp i) = 1" by simp
  moreover have "g i < 1"
    using assms(2,3) by (simp add: uniform_draws_def list_all_iff)
  ultimately have "first_bin_reaching (cum_row lp i) (g i) < length (cum_row lp i)"
    by (intro first_bin_reaching_less ne) simp
  then show ?thesis by (simp add: cum_row_def)
qed

lemma take_rows_eye:
  assumes "list_all (\<lambda>k. k < d) indices"
  shows "take_rows (eye d) indices =
         Inr (mk_array (length indices) d (\<lambda>i j. if j = indices ! i then 1 else 0))"
proof -
  have "mk_array (length indices) d (\<lambda>i j. entry (eye d) (indices ! i) j) =
        mk_array (length indices) d (\<lambda>i j. if j = indices ! i then 1 else 0)"
    using assms by (intro mk_array_cong) (auto simp: eye_def list_all_length)
  then show ?thesis
    using assms by (simp add: take_rows_def eye_def)
qed

lemma sample_one_hot_value:
  assumes "normalized_rows lp" "uniform_draws (nrows lp) g"
  shows "sample_discrete_from_log lp g =
         Inr (mk_array (nrows lp) (ncols lp)
                (\<lambda>i j. if j = first_bin_reaching (cum_row lp i) (g i) then 1 else 0),
              \<lambda>k. g (k + nrows lp))"
proof -
  define indices where "indices = map (\<lambda>i. first_bin_reaching (cum_row lp i) (g i)) [0..<nrows lp]"
  have r: "list_all (\<lambda>k. k < ncols lp) indices"
    using first_bin_in_range [OF assms] by (simp add: indices_def list_all_iff)
  have "mk_array (length indices) (ncols lp) (\<lambda>i j. if j = indices ! i then 1 else 0) =
        mk_array (nrows lp) (ncols lp)
                (\<lambda>i j. if j = first_bin_reaching (cum_row lp i) (g i) then 1 else 0)"
    unfolding indices_def length_map length_upt minus_nat.diff_0
    by (intro mk_array_cong) simp
  then show ?thesis
    using count_greater_draws [of lp g] take_rows_eye [OF r]
    by (simp add: sample_discrete_from_log_def Let_def npr_rand_def indices_def split_def)
qed

lemma first_bin_reaching_char:
  assumes "first_bin_reaching cums u < length cums"
  shows "u \<le> cums ! first_bin_reaching cums u"
    and "j < first_bin_reaching cums u \<Longrightarrow> cums ! j < u"
proof -
  show "u \<le> cums ! first_bin_reaching cums u"
    using nth_length_takeWhile [of "\<lambda>c. c < u" cums] assms
    by (simp add: first_bin_reaching_def not_less)
next
  assume j: "j < first_bin_reaching cums u"
  then have "takeWhile (\<lambda>c. c < u) cums ! j \<in> set (takeWhile (\<lambda>c. c < u) cums)"
    by (simp add: first_bin_reaching_def)
  then have "takeWhile (\<lambda>c. c < u) cums ! j < u"
    by (rule set_takeWhileD [THEN conjunct2])
  then show "cums ! j < u"
    using j by (simp add: first_bin_reaching_def takeWhile_nth)
qed

lemma cum_row_halves: "cum_row (NDArray 1 2 [[ln (1 / 2), ln (1 / 2)]]) 0 = [1 / 2, 1]"
  by (simp add: cum_row_def entry_def isum_def exp_minus ln_div upt_conv_Cons)

lemma normalized_rows_halves: "normalized_rows (NDArray 1 2 [[ln (1 / 2), ln (1 / 2)]])"
  by (simp add: normalized_rows_def entry_def isum_def exp_minus ln_div upt_conv_Cons)

section \<open>The forward pass\<close>

lemma nrows_affine [simp]: "nrows (affine x Wb eb) = nrows x"
  by (simp add: affine_def)

lemma ncols_affine [simp]: "ncols (affine x Wb eb) = ncols (fst Wb)"
  by (simp add: affine_def)

lemma squash_map_array: "map_array tanh s = squash s"
  by (simp add: map_array_def squash_def)

lemma nrows_squash [simp]: "nrows (squash s) = nrows s"
  by (simp add: squash_def)

lemma ncols_squash [simp]: "ncols (squash s) = ncols s"
  by (simp add: squash_def)

lemma bdim_one_right: "bdim n (Suc 0) = Some n"
  by (simp add: bdim_def)

lemma bdim_refl: "bdim n n = Some n"
  by (simp add: bdim_def)

lemma pre_activation_affine:
  assumes "nrows W = ncols x" "length b = ncols W" "ncols extra_bias = ncols W"
    "nrows extra_bias = nrows x \<or> nrows extra_bias = 1"
  shows "pre_activation x (W, b) extra_bias = Inr (affine x (W, b) extra_bias)"
proof -
  define d where "d = mk_array (nrows x) (ncols W) (\<lambda>i j. isum (ncols x) (\<lambda>k. entry x i k * entry W k j))"
  define db where "db = mk_array (nrows x) (ncols W)
      (\<lambda>i j. (\<Sum>k<ncols x. entry x i k * entry W k j) + b ! j)"
  have dot: "dot x W = Inr d"
    using assms(1) by (simp add: dot_def d_def)
  have s1: "bshape (nrows d, ncols d) (nrows (row_view b), ncols (row_view b)) = Some (nrows x, ncols W)"
    using assms(2) by (simp add: d_def row_view_def bshape_def bdim_one_right bdim_refl)
  have "mk_array (nrows x) (ncols W) (\<lambda>i j. bentry d i j + bentry (row_view b) i j) = db"
    unfolding db_def
  proof (intro mk_array_cong)
    fix i j assume i: "i < nrows x" and j: "j < ncols W"
    have "bentry d i j = (\<Sum>k<ncols x. entry x i k * entry W k j)"
      using i j by (simp add: bentry_in_range d_def isum_sum)
    moreover have "bentry (row_view b) i j = b ! j"
      using j assms(2) by (auto simp: bentry_def row_view_def entry_def)
    ultimately show "bentry d i j + bentry (row_view b) i j =
        (\<Sum>k<ncols x. entry x i k * entry W k j) + b ! j"
      by simp
  qed
  then have b1: "broadcast (+) d (row_view b) = Inr db"
    by (simp add: broadcast_def s1)
  have s2: "bshape (nrows db, ncols db) (nrows extra_bias, ncols extra_bias) = Some (nrows x, ncols W)"
    using assms(3,4) by (auto simp: db_def bshape_def bdim_def)
  have "mk_array (nrows x) (ncols W) (\<lambda>i j. bentry db i j + bentry extra_bias i j) =
        affine x (W, b) extra_bias"
    unfolding affine_def fst_conv snd_conv
  proof (intro mk_array_cong)
    fix i j assume i: "i < nrows x" and j: "j < ncols W"
    have "bentry db i j = (\<Sum>k<ncols x. entry x i k * entry W k j) + b ! j"
      using i j by (simp add: bentry_in_range db_def)
    moreover have "bentry extra_bias i j = entry extra_bias (if nrows extra_bias = 1 then 0 else i) j"
      using j assms(3) by (auto simp: bentry_def)
    ultimately show "bentry db i j + bentry extra_bias i j =
        (\<Sum>k<ncols x. entry x i k * entry W k j) + b ! j +
          entry extra_bias (if nrows extra_bias = 1 then 0 else i) j"
      by simp
  qed
  then have b2: "broadcast (+) db extra_bias = Inr (affine x (W, b) extra_bias)"
    by (simp add: broadcast_def s2)
  show ?thesis
    by (simp add: pre_activation_def dot b1 b2)
qed

lemma net_loop_spec:
  assumes "zs \<noteq> []" "acts \<noteq> []" "net_shapes_ok (nrows (last acts)) (ncols (last acts)) zs"
  shows "net_loop zs acts s =
         Inr (butlast acts @ layer_inputs (last acts) zs @ [squash (last_pre_activation (last acts) zs)],
              Some (last_pre_activation (last acts) zs))"
  using assms
proof (induction zs arbitrary: acts s)
  case Nil
  then show ?case by simp
next
  case (Cons z rest)
  obtain W b extra_bias where z: "z = ((W, b), extra_bias)"
    by (cases z) auto
  from Cons.prems(3) have sh: "nrows W = ncols (last acts)" "length b = ncols W"
    "ncols extra_bias = ncols W" "nrows extra_bias = nrows (last acts) \<or> nrows extra_bias = 1"
    and rest: "net_shapes_ok (nrows (last acts)) (ncols W) rest"
    by (simp_all add: z)
  define s' where "s' = affine (last acts) (W, b) extra_bias"
  have pre: "pre_activation (last acts) (W, b) extra_bias = Inr s'"
    unfolding s'_def by (rule pre_activation_affine [OF sh])
  define acts' where "acts' = acts @ [squash s']"
  have step: "net_loop (z # rest) acts s = net_loop rest acts' (Some s')"
    by (simp add: z pre acts'_def squash_map_array)
  have la: "last acts' = squash s'" "acts' \<noteq> []" "butlast acts' = acts"
    by (simp_all add: acts'_def)
  have acts: "acts = butlast acts @ [last acts]"
    using Cons.prems(2) by simp
  show ?case
  proof (cases rest)
    case Nil
    have "butlast acts @ [last acts, squash s'] = (butlast acts @ [last acts]) @ [squash s']"
      by simp
    also have "\<dots> = acts @ [squash s']"
      using Cons.prems(2) by simp
    finally have e: "butlast acts @ [last acts, squash s'] = acts @ [squash s']" .
    have "net_loop (z # rest) acts s = Inr (acts @ [squash s'], Some s')"
      unfolding step by (simp add: Nil acts'_def)
    moreover have "layer_inputs (last acts) (z # rest) = [last acts]"
      by (simp add: z Nil)
    moreover have "last_pre_activation (last acts) (z # rest) = s'"
      by (simp add: z Nil s'_def)
    ultimately show ?thesis
      by (simp only: e append_Cons append_Nil)
  next
    case (Cons z' rest')
    have ok: "net_shapes_ok (nrows (last acts')) (ncols (last acts')) rest"
      using rest by (simp add: la s'_def)
    have ne: "rest \<noteq> []" using Cons by simp
    have "net_loop rest acts' (Some s') =
        Inr (butlast acts' @ layer_inputs (last acts') rest @ [squash (last_pre_activation (last acts') rest)],
             Some (last_pre_activation (last acts') rest))"
      by (rule Cons.IH [OF ne la(2) ok])
    moreover have "layer_inputs (last acts) (z # rest) = last acts # layer_inputs (squash s') rest"
      by (simp add: z s'_def)
    moreover have "last_pre_activation (last acts) (z # rest) = last_pre_activation (squash s') rest"
      by (simp add: z s'_def Cons)
    ultimately show ?thesis
      unfolding step la using acts
      by (metis append_Cons append_Nil append_assoc)
  qed
qed

lemma last_pre_activation_shape:
  assumes "zs \<noteq> []" "net_shapes_ok (nrows x) (ncols x) zs"
  shows "nrows (last_pre_activation x zs) = nrows x \<and>
         ncols (last_pre_activation x zs) = ncols (fst (fst (last zs)))"
  using assms
proof (induction x zs rule: last_pre_activation.induct)
  case (1 x)
  then show ?case by simp
next
  case (2 x Wb extra_bias)
  then show ?case by simp
next
  case (3 x Wb extra_bias z rest)
  obtain W b where Wb: "Wb = (W, b)" by (cases Wb)
  from "3.prems"(2) have "net_shapes_ok (nrows x) (ncols W) (z # rest)"
    by (simp add: Wb)
  then have "net_shapes_ok (nrows (squash (affine x Wb extra_bias)))
               (ncols (squash (affine x Wb extra_bias))) (z # rest)"
    by (simp add: Wb)
  from "3.IH" [OF _ this] show ?case by simp
qed

lemma length_layer_inputs: "length (layer_inputs x zs) = length zs"
  by (induction x zs rule: layer_inputs.induct) simp_all

lemma sum_exp_pos: "0 < (n::nat) \<Longrightarrow> 0 < (\<Sum>k<n. exp (f k :: real))"
  by (intro sum_pos) auto

lemma log_softmax_run:
  assumes "0 < ncols s"
  shows "ebind (logsumexp s) (\<lambda>lse. ebind (broadcast (-) s lse) k) = k (log_softmax s)"
proof -
  define lse where "lse = mk_array (nrows s) 1 (\<lambda>i j. ln (isum (ncols s) (\<lambda>k. exp (entry s i k))))"
  have l: "logsumexp s = Inr lse"
    using assms by (simp add: logsumexp_def lse_def)
  have sh: "bshape (nrows s, ncols s) (nrows lse, ncols lse) = Some (nrows s, ncols s)"
    by (simp add: lse_def bshape_def bdim_one_right bdim_refl)
  have "mk_array (nrows s) (ncols s) (\<lambda>i j. bentry s i j - bentry lse i j) = log_softmax s"
    unfolding log_softmax_def
  proof (intro mk_array_cong)
    fix i j assume i: "i < nrows s" and j: "j < ncols s"
    have "bentry lse i j = ln (\<Sum>k<ncols s. exp (entry s i k))"
      using i by (auto simp: bentry_def lse_def isum_sum)
    then show "bentry s i j - bentry lse i j = entry s i j - ln (\<Sum>k<ncols s. exp (entry s i k))"
      using i j by (simp add: bentry_in_range)
  qed
  then have "broadcast (-) s lse = Inr (log_softmax s)"
    by (simp add: broadcast_def sh)
  with l show ?thesis by simp
qed

lemma log_softmax_normalized:
  assumes "0 < ncols s"
  shows "normalized_rows (log_softmax s)"
proof -
  define S where "S i = (\<Sum>k<ncols s. exp (entry s i k))" for i
  have S: "0 < S i" for i
    unfolding S_def by (rule sum_exp_pos) fact
  have "isum (ncols (log_softmax s)) (\<lambda>j. exp (entry (log_softmax s) i j)) = 1" if i: "i < nrows s" for i
  proof -
    have nc: "ncols (log_softmax s) = ncols s"
      by (simp add: log_softmax_def)
    have "isum (ncols (log_softmax s)) (\<lambda>j. exp (entry (log_softmax s) i j)) =
          (\<Sum>j<ncols s. exp (entry s i j) / S i)"
      unfolding isum_sum nc using i S [of i]
      by (intro sum.cong) (simp_all add: log_softmax_def exp_diff S_def)
    also have "\<dots> = (\<Sum>j<ncols s. exp (entry s i j)) / S i"
      by (simp only: sum_divide_distrib)
    also have "\<dots> = S i / S i"
      by (simp only: S_def)
    finally show ?thesis using S [of i] by simp
  qed
  then show ?thesis
    by (simp add: normalized_rows_def list_all_iff log_softmax_def)
qed

lemma forward_pass_run:
  assumes "params \<noteq> []" "length extra_biases = length params"
    "net_shapes_ok (nrows inputs) (ncols inputs) (zip params extra_biases)"
    "0 < ncols (fst (last params))"
  shows "neural_net_predict_and_activations extra_biases params inputs =
         Inr (log_softmax (last_pre_activation inputs (zip params extra_biases)),
              layer_inputs inputs (zip params extra_biases))"
proof -
  define zs where "zs = zip params extra_biases"
  have ne: "zs \<noteq> []"
    using assms(1,2) by (auto simp: zs_def)
  have "extra_biases \<noteq> []"
    using assms(1,2) by auto
  then have lz: "fst (last zs) = last params"
    using assms(1,2) by (simp add: zs_def last_zip)
  have ok: "net_shapes_ok (nrows (last [inputs])) (ncols (last [inputs])) zs"
    using assms(3) by (simp add: zs_def)
  have loop: "net_loop zs [inputs] None =
      Inr (layer_inputs inputs zs @ [squash (last_pre_activation inputs zs)],
           Some (last_pre_activation inputs zs))"
    using net_loop_spec [OF ne _ ok, of None] by simp
  have "0 < ncols (last_pre_activation inputs zs)"
    using last_pre_activation_shape [OF ne, of inputs] assms(3,4) by (simp add: zs_def [symmetric] lz)
  from log_softmax_run [OF this] show ?thesis
    by (simp add: neural_net_predict_and_activations_def loop flip: zs_def)
qed

lemma two_layer_run:
  "neural_net_predict_and_activations
     (zero_extra_biases [(NDArray 1 1 [[0]], [0]), (NDArray 1 2 [[1, 1]], [ln 4, 0])]
        (NDArray 1 1 [[1]]))
     [(NDArray 1 1 [[0]], [0]), (NDArray 1 2 [[1, 1]], [ln 4, 0])] (NDArray 1 1 [[1]]) =
   Inr (NDArray 1 2 [[ln 4 - ln 5, - ln 5]], [NDArray 1 1 [[1]], NDArray 1 1 [[0]]])"
  by (simp add: neural_net_predict_and_activations_def pre_activation_def dot_def row_view_def
      broadcast_def bshape_def bdim_def bentry_def entry_def mk_array_def isum_def logsumexp_def
      map_array_def upt_conv_Cons zero_extra_biases_def)

lemma two_layer_spec:
  "log_softmax (last_pre_activation (NDArray 1 1 [[1]])
     (zip [(NDArray 1 1 [[0]], [0]), (NDArray 1 2 [[1, 1]], [ln 4, 0])]
        (zero_extra_biases [(NDArray 1 1 [[0]], [0]), (NDArray 1 2 [[1, 1]], [ln 4, 0])]
           (NDArray 1 1 [[1]])))) = NDArray 1 2 [[ln 4 - ln 5, - ln 5]] \<and>
   layer_inputs (NDArray 1 1 [[1]])
     (zip [(NDArray 1 1 [[0]], [0]), (NDArray 1 2 [[1, 1]], [ln 4, 0])]
        (zero_extra_biases [(NDArray 1 1 [[0]], [0]), (NDArray 1 2 [[1, 1]], [ln 4, 0])]
           (NDArray 1 1 [[1]]))) = [NDArray 1 1 [[1]], NDArray 1 1 [[0]]]"
  by (simp add: log_softmax_def affine_def squash_def entry_def mk_array_def upt_conv_Cons
      zero_extra_biases_def lessThan_Suc eval_nat_numeral)

subsection \<open>The forward pass on the store\<close>

lemma net_loop_prefix:
  "net_loop zs acts s = Inr (acts', s') \<Longrightarrow> \<exists>more. acts' = acts @ more \<and> length more = length zs"
proof (induction zs arbitrary: acts s)
  case Nil
  then show ?case by simp
next
  case (Cons z rest)
  obtain Wb eb where z: "z = (Wb, eb)" by (cases z)
  show ?case
  proof (cases "pre_activation (last acts) Wb eb")
    case (Inl e)
    with Cons.prems show ?thesis by (simp add: z)
  next
    case (Inr t)
    with Cons.prems have "net_loop rest (acts @ [map_array tanh t]) (Some t) = Inr (acts', s')"
      by (simp add: z)
    from Cons.IH [OF this] obtain more where
      "acts' = (acts @ [map_array tanh t]) @ more" "length more = length rest"
      by blast
    then have "acts' = acts @ (map_array tanh t # more) \<and>
        length (map_array tanh t # more) = length (z # rest)"
      by simp
    then show ?thesis by blast
  qed
qed

lemma get_mats_extend:
  "list_all (\<lambda>r. r < length (mats st)) rs \<Longrightarrow> get_mats (st\<lparr>mats := mats st @ new\<rparr>) rs = get_mats st rs"
  by (simp add: get_mats_def list_all_iff nth_append)

lemma deref_layers_extend:
  "list_all (\<lambda>z. fst (fst z) < length (mats st) \<and> snd z < length (mats st)) zs \<Longrightarrow>
   deref_layers (st\<lparr>mats := mats st @ new\<rparr>) zs = deref_layers st zs"
  by (simp add: deref_layers_def list_all_iff nth_append)

lemma net_loop_store_refines:
  assumes "list_all (\<lambda>z. fst (fst z) < length (mats st) \<and> snd z < length (mats st)) zs"
    "list_all (\<lambda>r. r < length (mats st)) all" "all \<noteq> []"
    "net_loop (deref_layers st zs) (get_mats st all) s = Inr (acts, s')"
  shows "net_loop_store st zs all s =
         Inr (st\<lparr>mats := mats st @ drop (length all) acts\<rparr>,
              all @ [length (mats st)..<length (mats st) + length zs], s')"
  using assms
proof (induction zs arbitrary: st all s)
  case Nil
  then have "acts = get_mats st all" "s' = s"
    by (simp_all add: deref_layers_def)
  then have "drop (length all) acts = []"
    by (simp add: get_mats_def)
  then show ?case
    using \<open>s' = s\<close> by simp
next
  case (Cons z rest)
  obtain W b eb where z: "z = ((W, b), eb)" by (cases z) auto
  have la: "last (get_mats st all) = mats st ! last all"
    using Cons.prems(3) by (simp add: get_mats_def last_map)
  define pre where "pre = pre_activation (mats st ! last all) (mats st ! W, vecs st ! b) (mats st ! eb)"
  have run: "net_loop (deref_layers st (z # rest)) (get_mats st all) s =
      ebind pre (\<lambda>t. net_loop (deref_layers st rest) (get_mats st all @ [map_array tanh t]) (Some t))"
    by (simp add: deref_layers_def z la pre_def)
  show ?case
  proof (cases pre)
    case (Inl e)
    with Cons.prems(4) show ?thesis unfolding run by simp
  next
    case (Inr t)
    define st2 where "st2 = st\<lparr>mats := mats st @ [map_array tanh t]\<rparr>"
    define all2 where "all2 = all @ [length (mats st)]"
    have m2: "mats st2 = mats st @ [map_array tanh t]" "length (mats st2) = Suc (length (mats st))"
      by (simp_all add: st2_def)
    have ok_rest: "list_all (\<lambda>z. fst (fst z) < length (mats st) \<and> snd z < length (mats st)) rest"
      using Cons.prems(1) by simp
    have d2: "deref_layers st2 rest = deref_layers st rest"
      unfolding st2_def by (rule deref_layers_extend [OF ok_rest])
    have g2: "get_mats st2 all2 = get_mats st all @ [map_array tanh t]"
      using get_mats_extend [OF Cons.prems(2), of "[map_array tanh t]"]
      by (simp add: all2_def st2_def get_mats_def)
    have pure: "net_loop (deref_layers st2 rest) (get_mats st2 all2) (Some t) = Inr (acts, s')"
      using Cons.prems(4) unfolding run Inr d2 g2 by simp
    have ok2: "list_all (\<lambda>z. fst (fst z) < length (mats st2) \<and> snd z < length (mats st2)) rest"
      using ok_rest by (auto simp: m2 list_all_iff)
    have all_ok2: "list_all (\<lambda>r. r < length (mats st2)) all2"
      using Cons.prems(2) by (auto simp: m2 all2_def list_all_iff)
    have ne2: "all2 \<noteq> []" by (simp add: all2_def)
    have ih: "net_loop_store st2 rest all2 (Some t) =
         Inr (st2\<lparr>mats := mats st2 @ drop (length all2) acts\<rparr>,
              all2 @ [length (mats st2)..<length (mats st2) + length rest], s')"
      by (rule Cons.IH [OF ok2 all_ok2 ne2 pure])
    from net_loop_prefix [OF pure] obtain more where
      more: "acts = get_mats st2 all2 @ more"
      by blast
    have len: "length (get_mats st all) = length all" "length (get_mats st2 all2) = Suc (length all)"
      by (simp_all add: get_mats_def all2_def)
    have dr: "drop (length all) acts = map_array tanh t # drop (length all2) acts"
      unfolding more g2 using len by (simp add: all2_def)
    have st_eq: "st2\<lparr>mats := mats st2 @ drop (length all2) acts\<rparr> =
        st\<lparr>mats := mats st @ drop (length all) acts\<rparr>"
      unfolding dr by (simp add: st2_def)
    have refs_eq: "all2 @ [length (mats st2)..<length (mats st2) + length rest] =
        all @ [length (mats st)..<length (mats st) + length (z # rest)]"
    proof -
      have "[length (mats st)..<length (mats st) + Suc (length rest)] =
          length (mats st) # [Suc (length (mats st))..<Suc (length (mats st)) + length rest]"
        by (subst upt_rec) (simp del: upt_Suc)
      then show ?thesis
        by (simp add: all2_def m2 del: upt_Suc)
    qed
    have "net_loop_store st (z # rest) all s = net_loop_store st2 rest all2 (Some t)"
      using Inr by (simp add: z pre_def st2_def all2_def)
    then show ?thesis
      unfolding ih st_eq refs_eq .
  qed
qed

lemma net_loop_store_fails:
  assumes "list_all (\<lambda>z. fst (fst z) < length (mats st) \<and> snd z < length (mats st)) zs"
    "list_all (\<lambda>r. r < length (mats st)) all" "all \<noteq> []"
    "net_loop (deref_layers st zs) (get_mats st all) s = Inl e"
  shows "net_loop_store st zs all s = Inl e"
  using assms
proof (induction zs arbitrary: st all s)
  case Nil
  then show ?case by (simp add: deref_layers_def)
next
  case (Cons z rest)
  obtain W b eb where z: "z = ((W, b), eb)" by (cases z) auto
  have la: "last (get_mats st all) = mats st ! last all"
    using Cons.prems(3) by (simp add: get_mats_def last_map)
  define pre where "pre = pre_activation (mats st ! last all) (mats st ! W, vecs st ! b) (mats st ! eb)"
  have run: "net_loop (deref_layers st (z # rest)) (get_mats st all) s =
      ebind pre (\<lambda>t. net_loop (deref_layers st rest) (get_mats st all @ [map_array tanh t]) (Some t))"
    by (simp add: deref_layers_def z la pre_def)
  show ?case
  proof (cases pre)
    case (Inl e')
    with Cons.prems(4) show ?thesis unfolding run by (simp add: z flip: pre_def)
  next
    case (Inr t)
    define st2 where "st2 = st\<lparr>mats := mats st @ [map_array tanh t]\<rparr>"
    define all2 where "all2 = all @ [length (mats st)]"
    have m2: "mats st2 = mats st @ [map_array tanh t]" "length (mats st2) = Suc (length (mats st))"
      by (simp_all add: st2_def)
    have ok_rest: "list_all (\<lambda>z. fst (fst z) < length (mats st) \<and> snd z < length (mats st)) rest"
      using Cons.prems(1) by simp
    have d2: "deref_layers st2 rest = deref_layers st rest"
      unfolding st2_def by (rule deref_layers_extend [OF ok_rest])
    have g2: "get_mats st2 all2 = get_mats st all @ [map_array tanh t]"
      using get_mats_extend [OF Cons.prems(2), of "[map_array tanh t]"]
      by (simp add: all2_def st2_def get_mats_def)
    have pure: "net_loop (deref_layers st2 rest) (get_mats st2 all2) (Some t) = Inl e"
      using Cons.prems(4) unfolding run Inr d2 g2 by simp
    have ok2: "list_all (\<lambda>z. fst (fst z) < length (mats st2) \<and> snd z < length (mats st2)) rest"
      using ok_rest by (auto simp: m2 list_all_iff)
    have all_ok2: "list_all (\<lambda>r. r < length (mats st2)) all2"
      using Cons.prems(2) by (auto simp: m2 all2_def list_all_iff)
    have ne2: "all2 \<noteq> []" by (simp add: all2_def)
    have ih: "net_loop_store st2 rest all2 (Some t) = Inl e"
      by (rule Cons.IH [OF ok2 all_ok2 ne2 pure])
    have "net_loop_store st (z # rest) all s = net_loop_store st2 rest all2 (Some t)"
      using Inr by (simp add: z pre_def st2_def all2_def)
    then show ?thesis
      unfolding ih .
  qed
qed

lemma deref_layers_zip:
  "deref_layers st (zip ps ebs) = zip (get_params st ps) (get_mats st ebs)"
  by (simp add: deref_layers_def get_params_def get_mats_def zip_map_map case_prod_beta)

lemma refs_ok_layers:
  "refs_ok st ebs ps inp \<Longrightarrow>
   list_all (\<lambda>z. fst (fst z) < length (mats st) \<and> snd z < length (mats st)) (zip ps ebs)"
  by (fastforce simp: refs_ok_def list_all_iff dest: set_zip_leftD set_zip_rightD)

lemma map_nth_middle:
  "map ((!) (xs @ ys @ zs)) [length xs..<length xs + length ys] = ys"
  by (rule nth_equalityI) (simp_all add: nth_append)

lemma store_run_pure:
  assumes "refs_ok st ebs ps inp"
  shows "case neural_net_predict_and_activations_store st ebs ps inp of
           Inl e \<Rightarrow>
             neural_net_predict_and_activations (get_mats st ebs) (get_params st ps)
               (mats st ! inp) = Inl e
         | Inr (r, st') \<Rightarrow>
             neural_net_predict_and_activations (get_mats st ebs) (get_params st ps)
               (mats st ! inp) = Inr (mats st' ! fst r, get_mats st' (snd r)) \<and>
             vecs st' = vecs st \<and> take (length (mats st)) (mats st') = mats st"
proof -
  define zs where "zs = zip ps ebs"
  define x where "x = mats st ! inp"
  have ok: "list_all (\<lambda>z. fst (fst z) < length (mats st) \<and> snd z < length (mats st)) zs"
    unfolding zs_def by (rule refs_ok_layers [OF assms])
  have inp: "list_all (\<lambda>r. r < length (mats st)) [inp]" "[inp] \<noteq> []"
    using assms by (simp_all add: refs_ok_def)
  have g: "get_mats st [inp] = [x]"
    by (simp add: get_mats_def x_def)
  have pure_def: "neural_net_predict_and_activations (get_mats st ebs) (get_params st ps) x =
      ebind (net_loop (deref_layers st zs) [x] None)
        (\<lambda>(all_activations, last_s). case last_s of None \<Rightarrow> Inl UnboundLocalError
           | Some s \<Rightarrow> ebind (logsumexp s) (\<lambda>lse. ebind (broadcast (-) s lse)
               (\<lambda>logprobs. Inr (logprobs, butlast all_activations))))"
    by (simp add: neural_net_predict_and_activations_def deref_layers_zip zs_def)
  show ?thesis
  proof (cases "net_loop (deref_layers st zs) [x] None")
    case (Inl e)
    then have "net_loop_store st zs [inp] None = Inl e"
      using net_loop_store_fails [OF ok inp, of None e] by (simp add: g)
    then show ?thesis
      by (simp add: neural_net_predict_and_activations_store_def pure_def Inl
          flip: zs_def x_def)
  next
    case (Inr res)
    obtain acts s' where res: "res = (acts, s')" by (cases res)
    define st1 where "st1 = st\<lparr>mats := mats st @ drop 1 acts\<rparr>"
    define all where "all = [inp] @ [length (mats st)..<length (mats st) + length zs]"
    have loop: "net_loop_store st zs [inp] None = Inr (st1, all, s')"
      using net_loop_store_refines [OF ok inp, of None acts s'] Inr
      by (simp add: g res st1_def all_def)
    from net_loop_prefix [of "deref_layers st zs" "[x]" None acts s'] Inr obtain more where
      more: "acts = [x] @ more" "length more = length zs"
      by (auto simp: res deref_layers_def)
    have m1: "mats st1 = mats st @ more"
      by (simp add: st1_def more)
    show ?thesis
    proof (cases s')
      case None
      then show ?thesis
        by (simp add: neural_net_predict_and_activations_store_def pure_def Inr res loop
            flip: zs_def x_def)
    next
      case (Some sv)
      show ?thesis
      proof (cases "logsumexp sv")
        case (Inl e)
        then show ?thesis
          by (simp add: neural_net_predict_and_activations_store_def pure_def Inr res loop Some
              flip: zs_def x_def)
      next
        case lse: (Inr lse)
        show ?thesis
        proof (cases "broadcast (-) sv lse")
          case (Inl e)
          then show ?thesis
            by (simp add: neural_net_predict_and_activations_store_def pure_def Inr res loop
                Some lse flip: zs_def x_def)
        next
          case lp: (Inr lp)
          define st' where "st' = st1\<lparr>mats := mats st1 @ [lp]\<rparr>"
          have run: "neural_net_predict_and_activations_store st ebs ps inp =
              Inr ((length (mats st1), butlast all), st')"
            by (simp add: neural_net_predict_and_activations_store_def loop Some lse lp st'_def
                flip: zs_def)
          have pure: "neural_net_predict_and_activations (get_mats st ebs) (get_params st ps) x =
              Inr (lp, butlast acts)"
            by (simp add: pure_def Inr res Some lse lp)
          have m': "mats st' = mats st @ more @ [lp]"
            by (simp add: st'_def m1)
          have "inp < length (mats st)"
            using assms by (simp add: refs_ok_def)
          then have "mats st' ! inp = x"
            by (simp add: m' nth_append x_def)
          moreover have "map ((!) (mats st')) [length (mats st)..<length (mats st) + length zs] = more"
            unfolding m' using map_nth_middle [of "mats st" more "[lp]"] by (simp only: more(2))
          ultimately have "get_mats st' all = x # more"
            by (simp only: get_mats_def all_def list.map append_Cons append_Nil)
          then have a: "get_mats st' (butlast all) = butlast acts"
            by (simp add: get_mats_def map_butlast more(1))
          have b: "mats st' ! length (mats st1) = lp"
            by (simp add: st'_def)
          have c: "vecs st' = vecs st" "take (length (mats st)) (mats st') = mats st"
            by (simp_all add: st'_def st1_def)
          show ?thesis
            unfolding run using pure a b c by (simp add: x_def)
        qed
      qed
    qed
  qed
qed

lemma two_layer_store_run:
  "neural_net_predict_and_activations_store example_store [3, 4] [(1, 0), (2, 1)] 0 =
   Inr ((7, [0, 5]),
        example_store\<lparr>mats := mats example_store @ [NDArray 1 1 [[0]], NDArray 1 2 [[tanh (ln 4), 0]], NDArray 1 2 [[ln 4 - ln 5, - ln 5]]]\<rparr>)"
  by (simp add: neural_net_predict_and_activations_store_def example_store_def pre_activation_def dot_def row_view_def
      broadcast_def bshape_def bdim_def bentry_def entry_def mk_array_def isum_def logsumexp_def
      map_array_def upt_conv_Cons)

section \<open>Permuting the rows of a batch\<close>

lemma is_permutation_length: "is_permutation p n \<Longrightarrow> length p = n"
  unfolding is_permutation_def by (metis size_mset length_upt diff_zero)

lemma is_permutation_set: "is_permutation p n \<Longrightarrow> set p = {..<n}"
  unfolding is_permutation_def by (metis set_mset_mset set_upt atLeast0LessThan)

lemma is_permutation_nth: "is_permutation p n \<Longrightarrow> i < n \<Longrightarrow> p ! i < n"
  using is_permutation_set [of p n] is_permutation_length [of p n] nth_mem [of i p] by auto

lemma is_permutation_sum:
  fixes f :: "nat \<Rightarrow> real"
  assumes "is_permutation p n"
  shows "isum n (\<lambda>i. f (p ! i)) = isum n f"
proof -
  have "map (\<lambda>i. f (p ! i)) [0..<n] = map f p"
    using is_permutation_length [OF assms] by (intro nth_equalityI) simp_all
  then have "isum n (\<lambda>i. f (p ! i)) = sum_mset (image_mset f (mset p))"
    by (simp add: isum_def sum_mset_sum_list [symmetric])
  also have "\<dots> = sum_mset (image_mset f (mset [0..<n]))"
    using assms by (simp add: is_permutation_def)
  also have "\<dots> = isum n f"
    by (simp add: isum_def sum_mset_sum_list [symmetric])
  finally show ?thesis .
qed

lemma nrows_permute_rows [simp]: "nrows (permute_rows p a) = length p"
  by (simp add: permute_rows_def)

lemma ncols_permute_rows [simp]: "ncols (permute_rows p a) = ncols a"
  by (simp add: permute_rows_def)

lemma entry_permute_rows [simp]:
  "i < length p \<Longrightarrow> j < ncols a \<Longrightarrow> entry (permute_rows p a) i j = entry a (p ! i) j"
  by (simp add: permute_rows_def)

lemma permute_rows_mk_array:
  assumes "is_permutation p n"
  shows "permute_rows p (mk_array n c f) = mk_array n c (\<lambda>i j. f (p ! i) j)"
  unfolding permute_rows_def ncols_mk_array is_permutation_length [OF assms]
  by (intro mk_array_cong) (simp add: is_permutation_nth [OF assms])

lemma dot_permute_rows:
  assumes "is_permutation p (nrows a)"
  shows "dot (permute_rows p a) W = map_sum id (permute_rows p) (dot a W)"
proof (cases "ncols a = nrows W")
  case True
  have "mk_array (length p) (ncols W) (\<lambda>i j. isum (ncols a) (\<lambda>k. entry (permute_rows p a) i k * entry W k j)) =
        mk_array (nrows a) (ncols W) (\<lambda>i j. isum (ncols a) (\<lambda>k. entry a (p ! i) k * entry W k j))"
    unfolding is_permutation_length [OF assms]
    by (intro mk_array_cong isum_cong) (simp add: is_permutation_length [OF assms])
  then show ?thesis
    using True by (simp add: dot_def permute_rows_mk_array [OF assms])
next
  case False
  then show ?thesis by (simp add: dot_def)
qed

lemma bdim_col_index:
  "bdim ca cb = Some c \<Longrightarrow> j < c \<Longrightarrow> (if ca = 1 then 0 else j) < ca"
  by (auto simp: bdim_def split: if_splits)

lemma bdim_col_index2:
  "bdim ca cb = Some c \<Longrightarrow> j < c \<Longrightarrow> (if cb = 1 then 0 else j) < cb"
  by (auto simp: bdim_def split: if_splits)

lemma bentry_permute_rows:
  assumes "is_permutation p (nrows a)" "i < nrows a" "(if ncols a = 1 then 0 else j) < ncols a"
  shows "bentry (permute_rows p a) i j = bentry a (p ! i) j"
proof -
  have l: "length p = nrows a" by (rule is_permutation_length) fact
  have pi: "p ! i < nrows a" by (rule is_permutation_nth) fact+
  show ?thesis
  proof (cases "nrows a = 1")
    case True
    with assms(2) pi have "i = 0" "p ! i = 0" by simp_all
    then show ?thesis
      using assms(3) True by (simp add: bentry_def l)
  next
    case False
    then show ?thesis
      using assms(2,3) by (simp add: bentry_def l)
  qed
qed

lemma broadcast_permute_rows:
  assumes "is_permutation p n" "nrows a = n" "nrows b = n"
  shows "broadcast f (permute_rows p a) (permute_rows p b) =
         map_sum id (permute_rows p) (broadcast f a b)"
proof (cases "bdim (ncols a) (ncols b)")
  case None
  then show ?thesis
    by (simp add: broadcast_def bshape_def split: option.splits)
next
  case (Some c)
  have l: "length p = n" by (rule is_permutation_length) fact
  have r: "bdim n n = Some n" by (simp add: bdim_def)
  have "mk_array n c (\<lambda>i j. f (bentry (permute_rows p a) i j) (bentry (permute_rows p b) i j)) =
        mk_array n c (\<lambda>i j. f (bentry a (p ! i) j) (bentry b (p ! i) j))"
    using assms bdim_col_index [OF Some] bdim_col_index2 [OF Some]
    by (intro mk_array_cong) (simp add: bentry_permute_rows)
  then show ?thesis
    using assms(2,3) by (simp add: broadcast_def bshape_def Some r l permute_rows_mk_array [OF assms(1)])
qed

lemma broadcast_permute_rows_row:
  assumes "is_permutation p n" "nrows a = n" "nrows b = 1"
  shows "broadcast f (permute_rows p a) b = map_sum id (permute_rows p) (broadcast f a b)"
proof (cases "bdim (ncols a) (ncols b)")
  case None
  then show ?thesis
    by (simp add: broadcast_def bshape_def split: option.splits)
next
  case (Some c)
  have l: "length p = n" by (rule is_permutation_length) fact
  have r: "bdim n (Suc 0) = Some n" by (simp add: bdim_def)
  have b: "bentry b i j = entry b 0 (if ncols b = 1 then 0 else j)" for i j
    using assms(3) by (simp add: bentry_def)
  have "mk_array n c (\<lambda>i j. f (bentry (permute_rows p a) i j) (bentry b i j)) =
        mk_array n c (\<lambda>i j. f (bentry a (p ! i) j) (bentry b (p ! i) j))"
    using assms bdim_col_index [OF Some]
    by (intro mk_array_cong) (simp add: bentry_permute_rows b)
  then show ?thesis
    using assms(2,3) by (simp add: broadcast_def bshape_def Some r l permute_rows_mk_array [OF assms(1)])
qed

lemma map_array_permute_rows:
  assumes "is_permutation p (nrows a)"
  shows "map_array f (permute_rows p a) = permute_rows p (map_array f a)"
proof -
  have "mk_array (length p) (ncols a) (\<lambda>i j. f (entry (permute_rows p a) i j)) =
        mk_array (nrows a) (ncols a) (\<lambda>i j. f (entry a (p ! i) j))"
    unfolding is_permutation_length [OF assms]
    by (intro mk_array_cong) (simp add: is_permutation_length [OF assms])
  then show ?thesis
    by (simp add: map_array_def permute_rows_mk_array [OF assms])
qed

lemma broadcast_nrows:
  "broadcast f a b = Inr c \<Longrightarrow> bdim (nrows a) (nrows b) = Some (nrows c)"
  by (auto simp: broadcast_def bshape_def split: option.splits)

lemma dot_nrows: "dot a W = Inr c \<Longrightarrow> nrows c = nrows a"
  by (auto simp: dot_def split: if_splits)

lemma pre_activation_nrows:
  assumes "pre_activation x Wb extra_bias = Inr s" "nrows extra_bias = nrows x"
  shows "nrows s = nrows x"
proof -
  from assms(1) obtain d db where d: "dot x (fst Wb) = Inr d"
    and db: "broadcast (+) d (row_view (snd Wb)) = Inr db"
    and s: "broadcast (+) db extra_bias = Inr s"
    by (cases "dot x (fst Wb)"; cases "broadcast (+) (projr (dot x (fst Wb))) (row_view (snd Wb))")
       (auto simp: pre_activation_def)
  have "nrows db = nrows x"
    using broadcast_nrows [OF db] dot_nrows [OF d]
    by (auto simp: row_view_def bdim_def split: if_splits)
  then show ?thesis
    using broadcast_nrows [OF s] assms(2) by (simp add: bdim_def)
qed

lemma pre_activation_permute_rows:
  assumes "is_permutation p n" "nrows x = n" "nrows extra_bias = n"
  shows "pre_activation (permute_rows p x) Wb (permute_rows p extra_bias) =
         map_sum id (permute_rows p) (pre_activation x Wb extra_bias)"
proof (cases "dot x (fst Wb)")
  case (Inl e)
  then show ?thesis
    using assms by (simp add: pre_activation_def dot_permute_rows)
next
  case d: (Inr d)
  have nd: "nrows d = n"
    using dot_nrows [OF d] assms(2) by simp
  have r: "nrows (row_view (snd Wb)) = 1"
    by (simp add: row_view_def)
  show ?thesis
  proof (cases "broadcast (+) d (row_view (snd Wb))")
    case (Inl e)
    then show ?thesis
      using assms d broadcast_permute_rows_row [OF assms(1) nd r, of "(+)"]
      by (simp add: pre_activation_def dot_permute_rows)
  next
    case db: (Inr db)
    have "nrows db = n"
      using broadcast_nrows [OF db] nd r by (auto simp: bdim_def split: if_splits)
    from broadcast_permute_rows [OF assms(1) this assms(3), of "(+)"]
    show ?thesis
      using assms d db broadcast_permute_rows_row [OF assms(1) nd r, of "(+)"]
      by (simp add: pre_activation_def dot_permute_rows)
  qed
qed

lemma net_loop_permute_rows:
  assumes "is_permutation p n" "acts \<noteq> []" "nrows (last acts) = n"
    "list_all (\<lambda>z. nrows (snd z) = n) zs"
  shows "net_loop (map (\<lambda>z. (fst z, permute_rows p (snd z))) zs) (map (permute_rows p) acts)
           (map_option (permute_rows p) s) =
         map_sum id (\<lambda>r. (map (permute_rows p) (fst r), map_option (permute_rows p) (snd r)))
           (net_loop zs acts s)"
  using assms(2-4)
proof (induction zs arbitrary: acts s)
  case Nil
  then show ?case by simp
next
  case (Cons z rest)
  obtain Wb extra_bias where z: "z = (Wb, extra_bias)" by (cases z)
  have eb: "nrows extra_bias = n" and rest: "list_all (\<lambda>z. nrows (snd z) = n) rest"
    using Cons.prems(3) by (simp_all add: z)
  have pre: "pre_activation (last (map (permute_rows p) acts)) Wb (permute_rows p extra_bias) =
             map_sum id (permute_rows p) (pre_activation (last acts) Wb extra_bias)"
    using pre_activation_permute_rows [OF assms(1) Cons.prems(2) eb] Cons.prems(1)
    by (simp add: last_map)
  show ?case
  proof (cases "pre_activation (last acts) Wb extra_bias")
    case (Inl e)
    then show ?thesis by (simp add: z pre)
  next
    case (Inr s')
    have ns: "nrows s' = n"
      using pre_activation_nrows [OF Inr] eb Cons.prems(2) by simp
    have t: "map_array tanh (permute_rows p s') = permute_rows p (map_array tanh s')"
      using assms(1) ns by (simp add: map_array_permute_rows)
    have "net_loop (map (\<lambda>z. (fst z, permute_rows p (snd z))) rest)
            (map (permute_rows p) (acts @ [map_array tanh s'])) (map_option (permute_rows p) (Some s')) =
          map_sum id (\<lambda>r. (map (permute_rows p) (fst r), map_option (permute_rows p) (snd r)))
            (net_loop rest (acts @ [map_array tanh s']) (Some s'))"
      using rest ns by (intro Cons.IH) simp_all
    then show ?thesis
      by (simp add: z pre Inr t id_def)
  qed
qed

lemma net_loop_nrows:
  assumes "net_loop zs acts s0 = Inr (all, Some s)" "acts \<noteq> []" "nrows (last acts) = n"
    "list_all (\<lambda>z. nrows (snd z) = n) zs" "\<And>s'. s0 = Some s' \<Longrightarrow> nrows s' = n"
  shows "nrows s = n"
  using assms
proof (induction zs arbitrary: acts s0)
  case Nil
  then show ?case by simp
next
  case (Cons z rest)
  obtain Wb extra_bias where z: "z = (Wb, extra_bias)" by (cases z)
  from Cons.prems(1) obtain s' where
    s': "pre_activation (last acts) Wb extra_bias = Inr s'" and
    loop: "net_loop rest (acts @ [map_array tanh s']) (Some s') = Inr (all, Some s)"
    by (cases "pre_activation (last acts) Wb extra_bias") (auto simp: z)
  have ns: "nrows s' = n"
    using pre_activation_nrows [OF s'] Cons.prems(3,4) by (simp add: z)
  show ?case
    using Cons.prems(4) ns by (intro Cons.IH [OF loop]) simp_all
qed

lemma logsumexp_permute_rows:
  assumes "is_permutation p (nrows s)"
  shows "logsumexp (permute_rows p s) = map_sum id (permute_rows p) (logsumexp s)"
proof -
  have "mk_array (length p) 1 (\<lambda>i j. ln (isum (ncols s) (\<lambda>k. exp (entry (permute_rows p s) i k)))) =
        mk_array (nrows s) 1 (\<lambda>i j. ln (isum (ncols s) (\<lambda>k. exp (entry s (p ! i) k))))"
    unfolding is_permutation_length [OF assms]
    by (intro mk_array_cong arg_cong [where f = ln] isum_cong)
       (simp add: is_permutation_length [OF assms])
  then show ?thesis
    by (simp add: logsumexp_def permute_rows_mk_array [OF assms])
qed

lemma logsumexp_nrows: "logsumexp s = Inr lse \<Longrightarrow> nrows lse = nrows s"
  by (auto simp: logsumexp_def split: if_splits)

lemma neural_net_permute_rows:
  assumes "is_permutation p (nrows x)" "list_all (\<lambda>eb. nrows eb = nrows x) extra_biases"
  shows "neural_net_predict_and_activations (map (permute_rows p) extra_biases) params (permute_rows p x) =
         map_sum id (\<lambda>r. (permute_rows p (fst r), map (permute_rows p) (snd r)))
           (neural_net_predict_and_activations extra_biases params x)"
proof -
  define zs where "zs = zip params extra_biases"
  have z: "zip params (map (permute_rows p) extra_biases) =
           map (\<lambda>z. (fst z, permute_rows p (snd z))) zs"
    by (simp add: zs_def zip_map2 split_def)
  have all: "list_all (\<lambda>z. nrows (snd z) = nrows x) zs"
    using assms(2) by (auto simp: zs_def list_all_iff dest: set_zip_rightD)
  have loop: "net_loop (map (\<lambda>z. (fst z, permute_rows p (snd z))) zs) [permute_rows p x] None =
         map_sum id (\<lambda>r. (map (permute_rows p) (fst r), map_option (permute_rows p) (snd r)))
           (net_loop zs [x] None)"
    using net_loop_permute_rows [OF assms(1) _ _ all, of "[x]" None] by simp
  show ?thesis
  proof (cases "net_loop zs [x] None")
    case (Inl e)
    then show ?thesis
      by (simp add: neural_net_predict_and_activations_def z loop flip: zs_def)
  next
    case (Inr r)
    obtain acts last_s where r: "r = (acts, last_s)" by (cases r)
    show ?thesis
    proof (cases last_s)
      case None
      then show ?thesis
        using Inr r by (simp add: neural_net_predict_and_activations_def z loop flip: zs_def)
    next
      case (Some s)
      have ns: "nrows s = nrows x"
        using net_loop_nrows [of zs "[x]" None acts s "nrows x"] Inr r Some all by simp
      have ps: "is_permutation p (nrows s)"
        using assms(1) ns by simp
      show ?thesis
      proof (cases "logsumexp s")
        case (Inl e)
        then show ?thesis
          using Inr r Some
          by (simp add: neural_net_predict_and_activations_def z loop logsumexp_permute_rows [OF ps]
              flip: zs_def)
      next
        case lse: (Inr lse)
        have "broadcast (-) (permute_rows p s) (permute_rows p lse) =
              map_sum id (permute_rows p) (broadcast (-) s lse)"
          using assms(1) ns logsumexp_nrows [OF lse]
          by (intro broadcast_permute_rows) simp_all
        then show ?thesis
          using Inr r Some lse
          by (cases "broadcast (-) s lse")
             (simp_all add: neural_net_predict_and_activations_def z loop
                logsumexp_permute_rows [OF ps] map_butlast flip: zs_def)
      qed
    qed
  qed
qed

lemma neural_net_nrows:
  assumes "neural_net_predict_and_activations extra_biases params x = Inr (logprobs, acts)"
    "list_all (\<lambda>eb. nrows eb = nrows x) extra_biases"
  shows "nrows logprobs = nrows x"
proof -
  define zs where "zs = zip params extra_biases"
  have all: "list_all (\<lambda>z. nrows (snd z) = nrows x) zs"
    using assms(2) by (auto simp: zs_def list_all_iff dest: set_zip_rightD)
  from assms(1) obtain all_acts s lse where
    loop: "net_loop zs [x] None = Inr (all_acts, Some s)" and
    lse: "logsumexp s = Inr lse" and
    lp: "broadcast (-) s lse = Inr logprobs"
    unfolding neural_net_predict_and_activations_def zs_def [symmetric]
    by (cases "net_loop zs [x] None"; cases "snd (projr (net_loop zs [x] None))";
        cases "logsumexp (the (snd (projr (net_loop zs [x] None))))";
        cases "broadcast (-) (the (snd (projr (net_loop zs [x] None))))
                 (projr (logsumexp (the (snd (projr (net_loop zs [x] None))))))")
       (auto simp: split_def)
  have ns: "nrows s = nrows x"
    using net_loop_nrows [OF loop _ _ all] by simp
  show ?thesis
    using broadcast_nrows [OF lp] ns logsumexp_nrows [OF lse] by (simp add: bdim_def)
qed

lemma cumsum_permute_rows:
  assumes "is_permutation p (nrows a)"
  shows "cumsum (permute_rows p a) = permute_rows p (cumsum a)"
proof -
  have "mk_array (length p) (ncols a) (\<lambda>i j. isum (j + 1) (\<lambda>k. entry (permute_rows p a) i k)) =
        mk_array (nrows a) (ncols a) (\<lambda>i j. isum (j + 1) (\<lambda>k. entry a (p ! i) k))"
    unfolding is_permutation_length [OF assms]
    by (intro mk_array_cong isum_cong) (simp add: is_permutation_length [OF assms])
  then show ?thesis
    by (simp add: cumsum_def permute_rows_mk_array [OF assms])
qed

lemma npr_rand_permute_draws:
  assumes "is_permutation p n"
  shows "npr_rand n (Suc 0) (permute_draws p g) =
         (permute_rows p (fst (npr_rand n (Suc 0) g)), snd (npr_rand n (Suc 0) g))"
proof -
  have l: "length p = n" by (rule is_permutation_length) fact
  have "mk_array n (Suc 0) (\<lambda>i j. permute_draws p g (i + j)) =
        mk_array n (Suc 0) (\<lambda>i j. g (p ! i + j))"
    by (intro mk_array_cong) (simp add: permute_draws_def l)
  moreover have "(\<lambda>k. permute_draws p g (k + n)) = (\<lambda>k. g (k + n))"
    by (simp add: permute_draws_def l)
  ultimately show ?thesis
    by (simp add: npr_rand_def permute_rows_mk_array [OF assms])
qed

lemma count_greater_length:
  "count_greater a b = Inr indices \<Longrightarrow> nrows a = n \<Longrightarrow> nrows b = n \<Longrightarrow> length indices = n"
  by (auto simp: count_greater_def bshape_def bdim_def split: option.splits if_splits)

lemma count_greater_permute_rows:
  assumes "is_permutation p n" "nrows a = n" "nrows b = n"
  shows "count_greater (permute_rows p a) (permute_rows p b) =
         map_sum id (\<lambda>indices. map (\<lambda>i. indices ! (p ! i)) [0..<n]) (count_greater a b)"
proof (cases "bdim (ncols a) (ncols b)")
  case None
  then show ?thesis
    by (simp add: count_greater_def bshape_def split: option.splits)
next
  case (Some c)
  have l: "length p = n" by (rule is_permutation_length) fact
  have r: "bdim n n = Some n" by (simp add: bdim_def)
  define F where "F i = length (filter (\<lambda>j. bentry a i j > bentry b i j) [0..<c])" for i
  have "length (filter (\<lambda>j. bentry (permute_rows p a) i j > bentry (permute_rows p b) i j) [0..<c]) =
        F (p ! i)" if "i < n" for i
    unfolding F_def using that assms bdim_col_index [OF Some] bdim_col_index2 [OF Some]
    by (intro arg_cong [where f = length] filter_cong) (simp_all add: bentry_permute_rows)
  then have "map (\<lambda>i. length (filter (\<lambda>j. bentry (permute_rows p a) i j > bentry (permute_rows p b) i j)
                  [0..<c])) [0..<n] =
             map (\<lambda>i. map F [0..<n] ! (p ! i)) [0..<n]"
    by (intro map_cong refl) (simp add: is_permutation_nth [OF assms(1)])
  then show ?thesis
    using assms(2,3) unfolding F_def by (simp add: count_greater_def bshape_def Some r l)
qed

lemma take_rows_permute:
  assumes "is_permutation p (length indices)"
  shows "take_rows a (map (\<lambda>i. indices ! (p ! i)) [0..<length indices]) =
         map_sum id (permute_rows p) (take_rows a indices)"
proof -
  have l: "length p = length indices" by (rule is_permutation_length) fact
  have m: "map (\<lambda>i. indices ! (p ! i)) [0..<length indices] = map ((!) indices) p"
    by (intro nth_equalityI) (simp_all add: l)
  have "set (map ((!) indices) p) = (!) indices ` {..<length indices}"
    using is_permutation_set [OF assms] by simp
  also have "\<dots> = set indices"
    by (auto simp: set_conv_nth)
  finally have a: "list_all (\<lambda>k. k < nrows a) (map (\<lambda>i. indices ! (p ! i)) [0..<length indices]) =
             list_all (\<lambda>k. k < nrows a) indices"
    unfolding m by (simp only: list_all_iff)
  have "mk_array (length indices) (ncols a)
          (\<lambda>i j. entry a (map (\<lambda>i. indices ! (p ! i)) [0..<length indices] ! i) j) =
        mk_array (length indices) (ncols a) (\<lambda>i j. entry a (indices ! (p ! i)) j)"
    by (intro mk_array_cong) simp
  then show ?thesis
    by (simp add: take_rows_def a permute_rows_mk_array [OF assms])
qed

lemma take_rows_nrows: "take_rows a indices = Inr r \<Longrightarrow> nrows r = length indices"
  by (auto simp: take_rows_def split: if_splits)

lemma sample_discrete_permute:
  assumes "is_permutation p (nrows lp)"
  shows "sample_discrete_from_log (permute_rows p lp) (permute_draws p g) =
         map_sum id (\<lambda>r. (permute_rows p (fst r), snd r)) (sample_discrete_from_log lp g)"
proof -
  define n where "n = nrows lp"
  have pn: "is_permutation p n" using assms by (simp add: n_def)
  have l: "length p = n" by (rule is_permutation_length) fact
  define u where "u = fst (npr_rand n (Suc 0) g)"
  define c where "c = cumsum (map_array exp lp)"
  have nu: "nrows u = n" and nc: "nrows c = n"
    by (simp_all add: u_def c_def npr_rand_def n_def)
  have c': "cumsum (map_array exp (permute_rows p lp)) = permute_rows p c"
    using assms by (simp add: c_def map_array_permute_rows cumsum_permute_rows)
  have cg: "count_greater (permute_rows p u) (permute_rows p c) =
         map_sum id (\<lambda>indices. map (\<lambda>i. indices ! (p ! i)) [0..<n]) (count_greater u c)"
    by (rule count_greater_permute_rows [OF pn nu nc])
  show ?thesis
  proof (cases "count_greater u c")
    case (Inl e)
    then show ?thesis
      using cg
      by (simp add: sample_discrete_from_log_def Let_def split_def l c' npr_rand_permute_draws [OF pn]
          flip: n_def u_def c_def)
  next
    case (Inr indices)
    have li: "length indices = n"
      by (rule count_greater_length [OF Inr nu nc])
    have tr: "take_rows (eye (ncols lp)) (map (\<lambda>i. indices ! (p ! i)) [0..<n]) =
         map_sum id (permute_rows p) (take_rows (eye (ncols lp)) indices)"
      using take_rows_permute [of p indices] pn li by simp
    show ?thesis
      using cg Inr tr
      by (cases "take_rows (eye (ncols lp)) indices")
         (simp_all add: sample_discrete_from_log_def Let_def split_def l c'
            npr_rand_permute_draws [OF pn] flip: n_def u_def c_def)
  qed
qed

lemma sample_discrete_nrows:
  "sample_discrete_from_log lp g = Inr (t, g') \<Longrightarrow> nrows t = nrows lp"
proof -
  assume a: "sample_discrete_from_log lp g = Inr (t, g')"
  define u where "u = fst (npr_rand (nrows lp) 1 g)"
  define c where "c = cumsum (map_array exp lp)"
  from a obtain indices where i: "count_greater u c = Inr indices"
    and t: "take_rows (eye (ncols lp)) indices = Inr t"
    unfolding sample_discrete_from_log_def Let_def split_def u_def [symmetric] c_def [symmetric]
    by (cases "count_greater u c"; cases "take_rows (eye (ncols lp)) (projr (count_greater u c))") auto
  have "length indices = nrows lp"
    by (rule count_greater_length [OF i]) (simp_all add: u_def c_def npr_rand_def)
  then show ?thesis
    using take_rows_nrows [OF t] by simp
qed

lemma np_sum_permute_rows:
  assumes "is_permutation p (nrows a)"
  shows "np_sum (permute_rows p a) = np_sum a"
proof -
  have l: "length p = nrows a" by (rule is_permutation_length) fact
  have "np_sum (permute_rows p a) = isum (nrows a) (\<lambda>i. isum (ncols a) (\<lambda>j. entry a (p ! i) j))"
    unfolding np_sum_def nrows_permute_rows ncols_permute_rows l
    by (intro isum_cong) (simp add: l)
  also have "\<dots> = isum (nrows a) (\<lambda>i. isum (ncols a) (\<lambda>j. entry a i j))"
    by (rule is_permutation_sum [OF assms, of "\<lambda>i. isum (ncols a) (\<lambda>j. entry a i j)"])
  finally show ?thesis
    by (simp add: np_sum_def)
qed

lemmas eval_defs = model_predictive_log_likelihood_def neural_net_predict_and_activations_def
  pre_activation_def dot_def row_view_def
  broadcast_def bshape_def bdim_def bentry_def entry_def mk_array_def isum_def logsumexp_def
  map_array_def upt_conv_Cons sample_discrete_from_log_def npr_rand_def cumsum_def count_greater_def
  take_rows_def eye_def getval_def np_sum_def log_likelihood_of_def permute_rows_def

lemma ll_original:
  "log_likelihood_of (model_predictive_log_likelihood [NDArray 2 2 [[0, 0], [0, 0]]]
     [(NDArray 1 2 [[ln 4, 0]], [0, 0])] (NDArray 2 1 [[0], [1]])
     (\<lambda>k. if k = 0 then 3 / 5 else 9 / 10)) = Inr (- ln 2 - ln 5)"
  by (simp add: eval_defs exp_diff exp_minus)

lemma ll_rows_swapped:
  "log_likelihood_of (model_predictive_log_likelihood
     (map (permute_rows [1, 0]) [NDArray 2 2 [[0, 0], [0, 0]]])
     [(NDArray 1 2 [[ln 4, 0]], [0, 0])] (permute_rows [1, 0] (NDArray 2 1 [[0], [1]]))
     (\<lambda>k. if k = 0 then 3 / 5 else 9 / 10)) = Inr (ln 4 - ln 5 - ln 2)"
  by (simp add: eval_defs exp_diff exp_minus)

section \<open>Allocation\<close>

lemma alloc_all_eq: "alloc_all h vs = (map (\<lambda>i. length h + i) [0..<length vs], h @ vs)"
proof (induction vs arbitrary: h)
  case Nil
  then show ?case by simp
next
  case (Cons v vs)
  show ?case
    by (simp add: Cons [of "h @ [v]"] map_upt_Suc del: upt_Suc)
qed

lemma heap_run:
  "update_factor_estimates_heap [Arr (NDArray 2 2 [[1, 0], [0, 1]]), Arr (NDArray 1 1 [[1]])] ([0], [1])
     ([[NDArray 1 1 [[3]]]], [[NDArray 1 1 [[2]]]]) (1 / 2) =
   Inr (([2], [3]),
        [Arr (NDArray 2 2 [[1, 0], [0, 1]]), Arr (NDArray 1 1 [[1]]),
         Arr (NDArray 2 2 [[5, 3 / 2], [3 / 2, 1]]), Arr (NDArray 1 1 [[5 / 2]])])"
  by code_simp

section \<open>The update rule under broadcasting\<close>

lemma bentry_map_array:
  assumes "(if nrows a = 1 then 0 else i) < nrows a" "(if ncols a = 1 then 0 else j) < ncols a"
  shows "bentry (map_array f a) i j = f (bentry a i j)"
  using assms by (simp add: bentry_def)

lemma update_broadcast:
  "update eps (Arr old) (Arr new) =
     (case bshape (nrows old, ncols old) (nrows new, ncols new) of
        None \<Rightarrow> Inl ValueError
      | Some (r, c) \<Rightarrow>
          Inr (Arr (mk_array r c (\<lambda>i j. eps * bentry old i j + (1 - eps) * bentry new i j))))"
proof (cases "bshape (nrows old, ncols old) (nrows new, ncols new)")
  case None
  then show ?thesis
    by (simp add: update_def broadcast_def)
next
  case (Some rc)
  obtain r c where rc: "rc = (r, c)" by (cases rc)
  from Some rc have r: "bdim (nrows old) (nrows new) = Some r" and c: "bdim (ncols old) (ncols new) = Some c"
    by (auto simp: bshape_def split: option.splits)
  have "mk_array r c (\<lambda>i j. bentry (map_array ((*) eps) old) i j + bentry (map_array ((*) (1 - eps)) new) i j) =
        mk_array r c (\<lambda>i j. eps * bentry old i j + (1 - eps) * bentry new i j)"
    using bdim_col_index [OF r] bdim_col_index2 [OF r] bdim_col_index [OF c] bdim_col_index2 [OF c]
    by (intro mk_array_cong) (simp add: bentry_map_array)
  then show ?thesis
    using Some rc by (simp add: update_def broadcast_def)
qed

section \<open>A batch of zero activations\<close>

text \<open>
  On a single batch of \<open>n > 0\<close> zero rows the activation factor is the outer product of the
  homogeneous coordinate with itself, whatever \<open>n\<close>: a single 1 in the last row and
  column.
\<close>

lemma estimate_zero_activations:
  "0 < n \<longrightarrow>
     estimate_block_kron_factors [[mk_array n d (\<lambda>i j. 0)]] True =
       Inr [Arr (mk_array (d + 1) (d + 1) (\<lambda>i j. if i = d \<and> j = d then 1 else 0))]"
proof
  assume n: "0 < n"
  define b where "b = mk_array n d (\<lambda>i j. 0)"
  define hb where "hb = append_homog_coord b"
  have sh: "nrows hb = n" "ncols hb = d + 1"
    by (simp_all add: hb_def b_def append_homog_coord_def)
  have e: "entry hb k i = (if i = d then 1 else 0)" if "k < n" "i < d + 1" for k i
    using that by (auto simp: hb_def b_def append_homog_coord_def)
  have g: "entry (gram hb) i j = (if i = d \<and> j = d then real n else 0)" if "i < d + 1" "j < d + 1" for i j
  proof -
    have "entry (gram hb) i j = (\<Sum>k<n. (if i = d then 1 else 0) * (if j = d then 1 else 0))"
      using that unfolding entry_gram [of i hb j, unfolded sh, OF that] sh
      by (intro sum.cong refl) (simp add: e)
    then show ?thesis by simp
  qed
  have "second_moment [hb] n = mk_array (d + 1) (d + 1) (\<lambda>i j. if i = d \<and> j = d then 1 else 0)"
    unfolding second_moment_def list.sel sh using n
    by (intro mk_array_cong) (simp add: g)
  moreover have "layer_sumsq append_homog_coord n [b] = Inr (Arr (second_moment (map append_homog_coord [b]) n))"
    using n by (intro layer_sumsq_uniform) simp_all
  ultimately show "estimate_block_kron_factors [[mk_array n d (\<lambda>i j. 0)]] True =
       Inr [Arr (mk_array (d + 1) (d + 1) (\<lambda>i j. if i = d \<and> j = d then 1 else 0))]"
    by (simp add: estimate_block_kron_factors_def b_def hb_def)
qed

lemma estimate_zero_activations_example:
  "estimate_block_kron_factors [[mk_array 3 1 (\<lambda>i j. 0)]] True =
     Inr [Arr (NDArray 2 2 [[0, 0], [0, 1]])]"
proof -
  have "mk_array (1 + 1) (1 + 1) (\<lambda>i j. if i = 1 \<and> j = 1 then 1 else 0) = NDArray 2 2 [[0, 0], [0, (1::real)]]"
    by (simp add: mk_array_def upt_conv_Cons)
  with estimate_zero_activations [of 3 1] show ?thesis
    by simp
qed

section \<open>The update rule (claim C1)\<close>

text \<open>
  Claim C1. Given the fresh estimates \<open>Ahats\<close> and \<open>Ghats\<close> computed from the samples,
  \<open>update_factor_estimates\<close> returns, layer by layer and for both factor types, the matrix
  \<open>eps * old + (1 - eps) * fresh\<close>; the lambda \<open>update\<close> computes that blend for every
  \<open>eps\<close>, returns \<open>old\<close> itself at \<open>eps = 1\<close> and \<open>new\<close> itself at \<open>eps = 0\<close>; and
  the default of \<open>eps\<close> is 0.05. The old and the fresh matrix of a layer have one shape, as
  matrix addition requires; on two arrays of other shapes NumPy broadcasts the same
  expression or raises, which the last part states for every pair of arrays.
\<close>

theorem update_factor_estimates_blend:
  "(estimate_block_kron_factors a_samples True = Inr (map Arr Ahats) \<and>
    estimate_block_kron_factors g_samples False = Inr (map Arr Ghats) \<and>
    list_all2 same_shape As Ahats \<and> list_all2 same_shape Gs Ghats \<longrightarrow>
      update_factor_estimates (map Arr As, map Arr Gs) (a_samples, g_samples) eps =
        Inr (map Arr (map2 (blend eps) As Ahats), map Arr (map2 (blend eps) Gs Ghats))) \<and>
   (same_shape old new \<longrightarrow> update eps (Arr old) (Arr new) = Inr (Arr (blend eps old new))) \<and>
   (wf_array old \<and> same_shape old new \<longrightarrow> update 1 (Arr old) (Arr new) = Inr (Arr old)) \<and>
   (wf_array new \<and> same_shape old new \<longrightarrow> update 0 (Arr old) (Arr new) = Inr (Arr new)) \<and>
   update_factor_estimates_default old_estimates samples =
     update_factor_estimates old_estimates samples (5 / 100) \<and>
   update eps (Arr old) (Arr new) =
     (case bshape (nrows old, ncols old) (nrows new, ncols new) of
        None \<Rightarrow> Inl ValueError
      | Some (r, c) \<Rightarrow>
          Inr (Arr (mk_array r c (\<lambda>i j. eps * bentry old i j + (1 - eps) * bentry new i j))))"
  by (intro conjI impI update_broadcast)
     (simp_all add: emap2_update_same_shape update_same_shape blend_one blend_zero
        update_factor_estimates_default_def eps_default_def)

theorem update_factor_estimates_blend_witness:
  "update_factor_estimates ([Arr (eye 2)], [Arr (eye 1)])
       ([[NDArray 1 1 [[3]]]], [[NDArray 1 1 [[2]]]]) (1 / 2) =
     Inr ([Arr (blend (1 / 2) (eye 2) (NDArray 2 2 [[9, 3], [3, 1]]))],
          [Arr (blend (1 / 2) (eye 1) (NDArray 1 1 [[4]]))]) \<and>
   update 1 (Arr (eye 2)) (Arr (NDArray 2 2 [[9, 3], [3, 1]])) = Inr (Arr (eye 2)) \<and>
   update 0 (Arr (eye 2)) (Arr (NDArray 2 2 [[9, 3], [3, 1]])) = Inr (Arr (NDArray 2 2 [[9, 3], [3, 1]]))"
proof -
  have a: "estimate_block_kron_factors [[NDArray 1 1 [[3]]]] True = Inr (map Arr [NDArray 2 2 [[9, 3], [3, 1]]])"
    by code_simp
  have g: "estimate_block_kron_factors [[NDArray 1 1 [[2]]]] False = Inr (map Arr [NDArray 1 1 [[4]]])"
    by code_simp
  have s: "list_all2 same_shape [eye 2] [NDArray 2 2 [[9, 3], [3, 1]]]"
    "list_all2 same_shape [eye 1] [NDArray 1 1 [[4]]]"
    "same_shape (eye 2) (NDArray 2 2 [[9, 3], [3, 1]])"
    by (simp_all add: same_shape_def eye_def)
  have w: "wf_array (eye 2)" "wf_array (NDArray 2 2 [[9, 3], [3, 1]])"
    by (simp, simp add: wf_array_def)
  show ?thesis
    using update_factor_estimates_blend [of "[[NDArray 1 1 [[3]]]]" "[NDArray 2 2 [[9, 3], [3, 1]]]"
        "[[NDArray 1 1 [[2]]]]" "[NDArray 1 1 [[4]]]" "[eye 2]" "[eye 1]" "1 / 2"
        "eye 2" "NDArray 2 2 [[9, 3], [3, 1]]"] a g s w
    by (simp del: update_factor_estimates.simps)
qed

section \<open>The estimate of a layer's factor (claim C2)\<close>

text \<open>
  Claim C2, as the code has it. When the first layer holds at least one sample row and every
  layer holds at least one batch, all batches of a layer of one width,
  \<open>estimate_block_kron_factors\<close> returns for each layer the sum over that layer's batches
  of \<open>homog(batch)\<^sup>T homog(batch)\<close> divided by the number of sample rows of the
  first layer's batches: one denominator, shared by all layers. \<open>homog\<close> appends a
  column of ones when \<open>append_homog\<close> is true and is the identity otherwise, and
  \<open>sumsq\<close> computes \<open>x\<^sup>T x\<close>.
\<close>

theorem estimate_block_kron_factors_moment:
  "(all_samples = first # rest \<and> 0 < total_rows first \<and> list_all uniform_layer all_samples \<longrightarrow>
      estimate_block_kron_factors all_samples append_homog =
        Inr (map (\<lambda>bs. Arr (second_moment (map (homog_of append_homog) bs) (total_rows first)))
               all_samples)) \<and>
   homog_of True x = mk_array (nrows x) (ncols x + 1) (\<lambda>i j. if j < ncols x then entry x i j else 1) \<and>
   homog_of False x = x \<and>
   sumsq b = Inr (gram b) \<and>
   (i < ncols b \<and> j < ncols b \<longrightarrow> entry (gram b) i j = (\<Sum>k<nrows b. entry b k i * entry b k j))"
proof (intro conjI impI)
  assume h: "all_samples = first # rest \<and> 0 < total_rows first \<and> list_all uniform_layer all_samples"
  define homog where "homog = homog_of append_homog"
  have cols: "ncols (homog b) = ncols (homog b') \<longleftrightarrow> ncols b = ncols b'" for b b'
    by (simp add: homog_def homog_of_def append_homog_coord_def identity_def)
  have "layer_sumsq homog (total_rows first) bs =
        Inr (Arr (second_moment (map homog bs) (total_rows first)))" if "bs \<in> set all_samples" for bs
  proof (rule layer_sumsq_uniform)
    from that h have u: "uniform_layer bs" by (simp add: list_all_iff)
    then show "bs \<noteq> []" by (simp add: uniform_layer_def)
    from u show "list_all (\<lambda>b. ncols (homog b) = ncols (homog (hd bs))) bs"
      by (simp add: uniform_layer_def cols)
    from h show "0 < total_rows first" by simp
  qed
  then have "emap (layer_sumsq homog (total_rows first)) all_samples =
      Inr (map (\<lambda>bs. Arr (second_moment (map homog bs) (total_rows first))) all_samples)"
    by (rule emap_all_Inr)
  then show "estimate_block_kron_factors all_samples append_homog =
        Inr (map (\<lambda>bs. Arr (second_moment (map (homog_of append_homog) bs) (total_rows first)))
               all_samples)"
    using h by (simp add: estimate_block_kron_factors_def homog_def homog_of_def total_rows_def Let_def)
qed (simp_all add: homog_of_def append_homog_coord_def identity_def sumsq_gram entry_gram)

theorem estimate_block_kron_factors_moment_witness:
  "estimate_block_kron_factors [[NDArray 2 1 [[1], [3]]], [NDArray 1 1 [[2]], NDArray 1 1 [[4]]]] True =
     Inr [Arr (NDArray 2 2 [[5, 2], [2, 1]]), Arr (NDArray 2 2 [[10, 3], [3, 1]])] \<and>
   entry (gram (NDArray 2 1 [[1], [3]])) 0 0 = 10"
proof -
  have u: "list_all uniform_layer [[NDArray 2 1 [[1], [3]]], [NDArray 1 1 [[2]], NDArray 1 1 [[4]]]]"
    by (simp add: uniform_layer_def)
  have r: "0 < total_rows [NDArray 2 1 [[1], [3]]]"
    by (simp add: total_rows_def)
  have v: "map (\<lambda>bs. Arr (second_moment (map (homog_of True) bs) (total_rows [NDArray 2 1 [[1], [3]]])))
             [[NDArray 2 1 [[1], [3]]], [NDArray 1 1 [[2]], NDArray 1 1 [[4]]]] =
           [Arr (NDArray 2 2 [[5, 2], [2, 1]]), Arr (NDArray 2 2 [[10, 3], [3, 1]])]"
    by code_simp
  have s: "(\<Sum>k<nrows (NDArray 2 1 [[1], [3]]). entry (NDArray 2 1 [[1], [3]]) k 0 * entry (NDArray 2 1 [[1], [3]]) k 0) = 10"
    by (simp add: entry_def lessThan_Suc eval_nat_numeral)
  show ?thesis
    using estimate_block_kron_factors_moment [of "[[NDArray 2 1 [[1], [3]]], [NDArray 1 1 [[2]], NDArray 1 1 [[4]]]]"
        "[NDArray 2 1 [[1], [3]]]" "[[NDArray 1 1 [[2]], NDArray 1 1 [[4]]]]" True
        "NDArray 2 1 [[1], [3]]" "NDArray 2 1 [[1], [3]]" 0 0] u r v s
    by simp
qed

text \<open>
  Claim C2 as stated, with each layer's sum divided by that layer's own number of rows,
  fails where a layer holds another number of rows than the first: the second layer
  below holds two rows \<open>[1]\<close>, its sum of outer products is \<open>[[2]]\<close>, and the code divides
  it by the single row of the first layer. With no sample row in the first layer there is
  no estimate at all: the division by zero yields non-finite entries, or raises when the
  layer has no batch.
\<close>

theorem estimate_block_kron_factors_counterexample:
  "estimate_block_kron_factors [[NDArray 1 1 [[1]]], [NDArray 2 1 [[1], [1]]]] False =
     Inr [Arr (NDArray 1 1 [[1]]), Arr (NDArray 1 1 [[2]])] \<and>
   per_layer_moments [[NDArray 1 1 [[1]]], [NDArray 2 1 [[1], [1]]]] False =
     [Arr (NDArray 1 1 [[1]]), Arr (NDArray 1 1 [[1]])] \<and>
   estimate_block_kron_factors [[NDArray 1 1 [[1]]], [NDArray 2 1 [[1], [1]]]] False \<noteq>
     Inr (per_layer_moments [[NDArray 1 1 [[1]]], [NDArray 2 1 [[1], [1]]]] False) \<and>
   estimate_block_kron_factors [[NDArray 0 1 []]] False = Inr [NanArr 1 1] \<and>
   estimate_block_kron_factors [[]] False = Inl ZeroDivisionError"
  by code_simp

section \<open>One-hot samples (claim C3)\<close>

text \<open>
  Claim C3, as the code has it. For log-probabilities whose rows are normalised and draws
  in \<open>[0, 1)\<close>, \<open>sample_discrete_from_log\<close> returns an array of the shape of its input
  with exactly one 1 in each row and zeros elsewhere. The 1 of row \<open>i\<close> stands at the
  first bin whose cumulative probability is at least the draw of that row: the draw is
  at most that bin's cumulative probability and greater than every earlier one.
\<close>

theorem sample_discrete_from_log_one_hot_rows:
  "normalized_rows logprobs \<and> uniform_draws (nrows logprobs) g \<longrightarrow>
     sample_discrete_from_log logprobs g =
       Inr (mk_array (nrows logprobs) (ncols logprobs)
              (\<lambda>i j. if j = first_bin_reaching (cum_row logprobs i) (g i) then 1 else 0),
            \<lambda>k. g (k + nrows logprobs)) \<and>
     list_all (\<lambda>i. first_bin_reaching (cum_row logprobs i) (g i) < ncols logprobs \<and>
                  g i \<le> cum_row logprobs i ! first_bin_reaching (cum_row logprobs i) (g i) \<and>
                  list_all (\<lambda>j. cum_row logprobs i ! j < g i)
                    [0..<first_bin_reaching (cum_row logprobs i) (g i)])
       [0..<nrows logprobs]"
proof (intro impI conjI)
  assume h: "normalized_rows logprobs \<and> uniform_draws (nrows logprobs) g"
  then show "sample_discrete_from_log logprobs g =
       Inr (mk_array (nrows logprobs) (ncols logprobs)
              (\<lambda>i j. if j = first_bin_reaching (cum_row logprobs i) (g i) then 1 else 0),
            \<lambda>k. g (k + nrows logprobs))"
    by (simp add: sample_one_hot_value)
  have "first_bin_reaching (cum_row logprobs i) (g i) < ncols logprobs \<and>
        g i \<le> cum_row logprobs i ! first_bin_reaching (cum_row logprobs i) (g i) \<and>
        list_all (\<lambda>j. cum_row logprobs i ! j < g i)
          [0..<first_bin_reaching (cum_row logprobs i) (g i)]" if "i < nrows logprobs" for i
  proof -
    have r: "first_bin_reaching (cum_row logprobs i) (g i) < ncols logprobs"
      using first_bin_in_range [of logprobs g i] h that by simp
    then have l: "first_bin_reaching (cum_row logprobs i) (g i) < length (cum_row logprobs i)"
      by (simp add: cum_row_def)
    show ?thesis
      using r first_bin_reaching_char [OF l] by (simp add: list_all_iff)
  qed
  then show "list_all (\<lambda>i. first_bin_reaching (cum_row logprobs i) (g i) < ncols logprobs \<and>
                  g i \<le> cum_row logprobs i ! first_bin_reaching (cum_row logprobs i) (g i) \<and>
                  list_all (\<lambda>j. cum_row logprobs i ! j < g i)
                    [0..<first_bin_reaching (cum_row logprobs i) (g i)])
       [0..<nrows logprobs]"
    by (simp add: list_all_iff)
qed

theorem sample_discrete_from_log_one_hot_rows_witness:
  "sample_discrete_from_log (NDArray 1 2 [[ln (1 / 2), ln (1 / 2)]]) (\<lambda>k. 3 / 4) =
     Inr (NDArray 1 2 [[0, 1]], \<lambda>k. 3 / 4) \<and>
   first_bin_reaching (cum_row (NDArray 1 2 [[ln (1 / 2), ln (1 / 2)]]) 0) (3 / 4) = 1"
proof -
  define lp where "lp = NDArray 1 2 [[ln (1 / 2), ln (1 / 2)]]"
  have n: "normalized_rows lp" and c: "cum_row lp 0 = [1 / 2, 1]"
    unfolding lp_def by (rule normalized_rows_halves, rule cum_row_halves)
  have sh: "nrows lp = 1" "ncols lp = 2"
    unfolding lp_def by simp_all
  have u: "uniform_draws (nrows lp) (\<lambda>k. 3 / 4)"
    by (simp add: uniform_draws_def list_all_iff)
  have f: "first_bin_reaching (cum_row lp 0) (3 / 4) = 1"
    unfolding first_bin_reaching_def c by simp
  have "mk_array 1 2 (\<lambda>i j. if j = first_bin_reaching (cum_row lp i) (3 / 4) then 1 else 0) =
        mk_array 1 2 (\<lambda>i j. if j = 1 then 1 else 0)"
    by (intro mk_array_cong) (simp add: f)
  also have "\<dots> = NDArray 1 2 [[0, 1]]"
    by (simp add: mk_array_def upt_conv_Cons)
  finally have m: "mk_array 1 2 (\<lambda>i j. if j = first_bin_reaching (cum_row lp i) (3 / 4) then 1 else 0) =
        NDArray 1 2 [[0, 1]]" .
  have "sample_discrete_from_log lp (\<lambda>k. 3 / 4) = Inr (NDArray 1 2 [[0, 1]], \<lambda>k. 3 / 4)"
    using sample_discrete_from_log_one_hot_rows [of lp "\<lambda>k. 3 / 4"] n u
    unfolding sh m by simp
  with f show ?thesis
    unfolding lp_def by simp
qed

text \<open>
  Claim C3 as stated puts the 1 at the first bin whose cumulative probability exceeds the
  draw. The two differ when the draw equals a cumulative probability: with two bins of
  probability 1/2 and the draw 1/2, the code counts no bin below the draw and returns
  \<open>[1, 0]\<close>, while the first bin exceeding 1/2 is bin 1.
\<close>

theorem sample_discrete_from_log_counterexample:
  "normalized_rows (NDArray 1 2 [[ln (1 / 2), ln (1 / 2)]]) \<and>
   uniform_draws 1 (\<lambda>k. 1 / 2) \<and>
   cum_row (NDArray 1 2 [[ln (1 / 2), ln (1 / 2)]]) 0 = [1 / 2, 1] \<and>
   first_bin_exceeding (cum_row (NDArray 1 2 [[ln (1 / 2), ln (1 / 2)]]) 0) (1 / 2) = 1 \<and>
   sample_discrete_from_log (NDArray 1 2 [[ln (1 / 2), ln (1 / 2)]]) (\<lambda>k. 1 / 2) =
     Inr (NDArray 1 2 [[1, 0]], \<lambda>k. 1 / 2)"
proof -
  have "sample_discrete_from_log (NDArray 1 2 [[ln (1 / 2), ln (1 / 2)]]) (\<lambda>k. 1 / 2) =
     Inr (NDArray 1 2 [[1, 0]], \<lambda>k. 1 / 2)"
    by (simp add: sample_discrete_from_log_def npr_rand_def cumsum_def count_greater_def
      take_rows_def map_array_def mk_array_def bshape_def bdim_def bentry_def entry_def isum_def
      eye_def exp_minus ln_div upt_conv_Cons)
  moreover have "first_bin_exceeding (cum_row (NDArray 1 2 [[ln (1 / 2), ln (1 / 2)]]) 0) (1 / 2) = 1"
    unfolding first_bin_exceeding_def cum_row_halves by simp
  moreover have "uniform_draws 1 (\<lambda>k. 1 / 2)"
    by (simp add: uniform_draws_def)
  ultimately show ?thesis
    using normalized_rows_halves cum_row_halves by blast
qed

section \<open>Initial factor estimates and their shapes (claim C4)\<close>

text \<open>
  Claim C4. For the layer sizes \<open>[784, 200, 100, 10]\<close>, \<open>init_factor_estimates\<close> returns
  the identity matrices of sizes 785, 201, 101 for the activation factors and 200, 100, 10
  for the gradient factors; in general the identities of size \<open>layer_width + 1\<close> over all
  layers but the last, and of size \<open>layer_width\<close> over all layers but the first. After
  one batch of samples per layer has been appended to fresh sample lists (a batch of any
  number of rows, its width the layer's), one call of \<open>update_factor_estimates\<close>
  returns factors of the same shapes.
\<close>

theorem init_factor_estimates_shapes:
  "init_factor_estimates [784, 200, 100, 10] =
     ([Arr (eye 785), Arr (eye 201), Arr (eye 101)], [Arr (eye 200), Arr (eye 100), Arr (eye 10)]) \<and>
   map shape_of (fst (init_factor_estimates [784, 200, 100, 10])) =
     [Some (785, 785), Some (201, 201), Some (101, 101)] \<and>
   fst (init_factor_estimates layer_sizes) = map (\<lambda>n. Arr (eye (n + 1))) (butlast layer_sizes) \<and>
   snd (init_factor_estimates layer_sizes) = map (\<lambda>n. Arr (eye n)) (tl layer_sizes) \<and>
   nrows (eye n) = n \<and> ncols (eye n) = n \<and> wf_array (eye n) \<and>
   (i < n \<and> j < n \<longrightarrow> entry (eye n) i j = (if i = j then 1 else 0)) \<and>
   (2 \<le> length layer_sizes \<and>
    list_all2 (\<lambda>d b. ncols b = d) (butlast layer_sizes) a_batches \<and>
    list_all2 (\<lambda>d b. ncols b = d) (tl layer_sizes) g_batches \<longrightarrow>
      (\<exists>As' Gs'. update_factor_estimates (init_factor_estimates layer_sizes)
           (append_samples (fst (init_sample_lists layer_sizes)) a_batches,
            append_samples (snd (init_sample_lists layer_sizes)) g_batches) eps = Inr (As', Gs') \<and>
         map shape_of As' = map shape_of (fst (init_factor_estimates layer_sizes)) \<and>
         map shape_of Gs' = map shape_of (snd (init_factor_estimates layer_sizes))))"
proof (intro conjI impI)
  assume "2 \<le> length layer_sizes \<and>
    list_all2 (\<lambda>d b. ncols b = d) (butlast layer_sizes) a_batches \<and>
    list_all2 (\<lambda>d b. ncols b = d) (tl layer_sizes) g_batches"
  then show "\<exists>As' Gs'. update_factor_estimates (init_factor_estimates layer_sizes)
           (append_samples (fst (init_sample_lists layer_sizes)) a_batches,
            append_samples (snd (init_sample_lists layer_sizes)) g_batches) eps = Inr (As', Gs') \<and>
         map shape_of As' = map shape_of (fst (init_factor_estimates layer_sizes)) \<and>
         map shape_of Gs' = map shape_of (snd (init_factor_estimates layer_sizes))"
    using update_after_one_batch by blast
qed (simp_all add: init_factor_estimates_def eye_def)

theorem init_factor_estimates_shapes_witness:
  "\<exists>As' Gs'. update_factor_estimates (init_factor_estimates [784, 200, 100, 10])
       (append_samples (fst (init_sample_lists [784, 200, 100, 10]))
          [mk_array 256 784 (\<lambda>i j. 0), mk_array 256 200 (\<lambda>i j. 0), mk_array 256 100 (\<lambda>i j. 0)],
        append_samples (snd (init_sample_lists [784, 200, 100, 10]))
          [mk_array 256 200 (\<lambda>i j. 0), mk_array 256 100 (\<lambda>i j. 0), mk_array 256 10 (\<lambda>i j. 0)])
       (1 / 20) = Inr (As', Gs') \<and>
     map shape_of As' = [Some (785, 785), Some (201, 201), Some (101, 101)] \<and>
     map shape_of Gs' = [Some (200, 200), Some (100, 100), Some (10, 10)]"
proof -
  have l: "2 \<le> length [784, 200, 100, 10 :: nat]"
    by simp
  have a: "list_all2 (\<lambda>d b. ncols b = d) (butlast [784, 200, 100, 10])
             [mk_array 256 784 (\<lambda>i j. 0), mk_array 256 200 (\<lambda>i j. 0), mk_array 256 100 (\<lambda>i j. 0)]"
    by simp
  have g: "list_all2 (\<lambda>d b. ncols b = d) (tl [784, 200, 100, 10])
             [mk_array 256 200 (\<lambda>i j. 0), mk_array 256 100 (\<lambda>i j. 0), mk_array 256 10 (\<lambda>i j. 0)]"
    by simp
  have s: "map shape_of (fst (init_factor_estimates [784, 200, 100, 10])) =
             [Some (785, 785), Some (201, 201), Some (101, 101)]"
          "map shape_of (snd (init_factor_estimates [784, 200, 100, 10])) =
             [Some (200, 200), Some (100, 100), Some (10, 10)]"
    by (simp_all add: init_factor_estimates_def eye_def)
  from init_factor_estimates_shapes [of "[784, 200, 100, 10]" 1 0 0
      "[mk_array 256 784 (\<lambda>i j. 0), mk_array 256 200 (\<lambda>i j. 0), mk_array 256 100 (\<lambda>i j. 0)]"
      "[mk_array 256 200 (\<lambda>i j. 0), mk_array 256 100 (\<lambda>i j. 0), mk_array 256 10 (\<lambda>i j. 0)]"
      "1 / 20"] l a g
  have "\<exists>As' Gs'. update_factor_estimates (init_factor_estimates [784, 200, 100, 10])
       (append_samples (fst (init_sample_lists [784, 200, 100, 10]))
          [mk_array 256 784 (\<lambda>i j. 0), mk_array 256 200 (\<lambda>i j. 0), mk_array 256 100 (\<lambda>i j. 0)],
        append_samples (snd (init_sample_lists [784, 200, 100, 10]))
          [mk_array 256 200 (\<lambda>i j. 0), mk_array 256 100 (\<lambda>i j. 0), mk_array 256 10 (\<lambda>i j. 0)])
       (1 / 20) = Inr (As', Gs') \<and>
     map shape_of As' = map shape_of (fst (init_factor_estimates [784, 200, 100, 10])) \<and>
     map shape_of Gs' = map shape_of (snd (init_factor_estimates [784, 200, 100, 10]))"
    by blast
  then show ?thesis
    unfolding s .
qed

section \<open>Factors are symmetric positive semi-definite (claim C5)\<close>




section \<open>The augmented forward pass (claim C6)\<close>

text \<open>
  Claim C6. For a network with at least one layer, one perturbation per layer, consistent
  shapes and a last layer of at least one unit, \<open>neural_net_predict_and_activations\<close>
  returns exactly (i) the log-softmax of the last layer's pre-activation: one row per
  example, each row normalised (its exponentials sum to 1, the logarithm of that sum is 0),
  and (ii) the input activations of the layers: one entry per layer, the first the input
  batch itself, the output of the last layer left out. The perturbations need not be zero;
  the zero perturbations that \<^verbatim>\<open>collect_activations_and_grad_samples\<close> builds are an instance.
  The call has no side effect and its result is a function of the values of its arguments:
  run on a store with valid references, it fails exactly when the function of the values
  fails, and otherwise the arrays behind the references it returns are the values of that
  function, no bias vector has changed and every array of the store before the call is
  still there unchanged.
\<close>

theorem neural_net_predict_and_activations_spec:
  "(params \<noteq> [] \<and> length extra_biases = length params \<and>
    net_shapes_ok (nrows inputs) (ncols inputs) (zip params extra_biases) \<and>
    0 < ncols (fst (last params)) \<longrightarrow>
      neural_net_predict_and_activations extra_biases params inputs =
        Inr (log_softmax (last_pre_activation inputs (zip params extra_biases)),
             layer_inputs inputs (zip params extra_biases)) \<and>
      nrows (log_softmax (last_pre_activation inputs (zip params extra_biases))) = nrows inputs \<and>
      ncols (log_softmax (last_pre_activation inputs (zip params extra_biases))) =
        ncols (fst (last params)) \<and>
      normalized_rows (log_softmax (last_pre_activation inputs (zip params extra_biases))) \<and>
      list_all (\<lambda>i. ln (isum (ncols (fst (last params)))
           (\<lambda>j. exp (entry (log_softmax (last_pre_activation inputs (zip params extra_biases))) i j))) = 0)
        [0..<nrows inputs] \<and>
      length (layer_inputs inputs (zip params extra_biases)) = length params \<and>
      hd (layer_inputs inputs (zip params extra_biases)) = inputs) \<and>
   (refs_ok st extra_bias_refs param_refs inputs_ref \<longrightarrow>
      (case neural_net_predict_and_activations_store st extra_bias_refs param_refs inputs_ref of
         Inl e \<Rightarrow>
           neural_net_predict_and_activations (get_mats st extra_bias_refs)
             (get_params st param_refs) (mats st ! inputs_ref) = Inl e
       | Inr (r, st') \<Rightarrow>
           neural_net_predict_and_activations (get_mats st extra_bias_refs)
             (get_params st param_refs) (mats st ! inputs_ref) =
             Inr (mats st' ! fst r, get_mats st' (snd r)) \<and>
           vecs st' = vecs st \<and> take (length (mats st)) (mats st') = mats st))"
proof (intro conjI impI)
  assume h: "params \<noteq> [] \<and> length extra_biases = length params \<and>
    net_shapes_ok (nrows inputs) (ncols inputs) (zip params extra_biases) \<and>
    0 < ncols (fst (last params))"
  define zs where "zs = zip params extra_biases"
  define lp where "lp = log_softmax (last_pre_activation inputs zs)"
  have ne: "zs \<noteq> []" and len: "length zs = length params"
    using h by (auto simp: zs_def)
  have "extra_biases \<noteq> []"
    using h by auto
  then have lz: "fst (last zs) = last params"
    using h by (simp add: zs_def last_zip)
  have ok: "net_shapes_ok (nrows inputs) (ncols inputs) zs"
    using h by (simp add: zs_def)
  have sh: "nrows (last_pre_activation inputs zs) = nrows inputs"
    "ncols (last_pre_activation inputs zs) = ncols (fst (last params))"
    using last_pre_activation_shape [OF ne ok] by (simp_all add: lz)
  show "neural_net_predict_and_activations extra_biases params inputs =
        Inr (log_softmax (last_pre_activation inputs (zip params extra_biases)),
             layer_inputs inputs (zip params extra_biases))"
    using h by (intro forward_pass_run) simp_all
  show r: "nrows (log_softmax (last_pre_activation inputs (zip params extra_biases))) = nrows inputs"
    using sh by (simp add: log_softmax_def flip: zs_def)
  show c: "ncols (log_softmax (last_pre_activation inputs (zip params extra_biases))) =
        ncols (fst (last params))"
    using sh by (simp add: log_softmax_def flip: zs_def)
  have "0 < ncols (last_pre_activation inputs zs)"
    using h sh by simp
  then have "normalized_rows (log_softmax (last_pre_activation inputs zs))"
    by (rule log_softmax_normalized)
  then show n: "normalized_rows (log_softmax (last_pre_activation inputs (zip params extra_biases)))"
    by (simp only: zs_def)
  show "list_all (\<lambda>i. ln (isum (ncols (fst (last params)))
           (\<lambda>j. exp (entry (log_softmax (last_pre_activation inputs (zip params extra_biases))) i j))) = 0)
        [0..<nrows inputs]"
    using n unfolding normalized_rows_def r c by (simp add: list_all_iff)
  show "length (layer_inputs inputs (zip params extra_biases)) = length params"
    using len by (simp add: length_layer_inputs zs_def)
  show "hd (layer_inputs inputs (zip params extra_biases)) = inputs"
    using ne unfolding zs_def [symmetric] by (cases zs) auto
next
  assume "refs_ok st extra_bias_refs param_refs inputs_ref"
  then show "case neural_net_predict_and_activations_store st extra_bias_refs param_refs inputs_ref of
         Inl e \<Rightarrow>
           neural_net_predict_and_activations (get_mats st extra_bias_refs)
             (get_params st param_refs) (mats st ! inputs_ref) = Inl e
       | Inr (r, st') \<Rightarrow>
           neural_net_predict_and_activations (get_mats st extra_bias_refs)
             (get_params st param_refs) (mats st ! inputs_ref) =
             Inr (mats st' ! fst r, get_mats st' (snd r)) \<and>
           vecs st' = vecs st \<and> take (length (mats st)) (mats st') = mats st"
    by (rule store_run_pure)
qed

theorem neural_net_predict_and_activations_spec_witness:
  "neural_net_predict_and_activations
     (zero_extra_biases [(NDArray 1 1 [[0]], [0]), (NDArray 1 2 [[1, 1]], [ln 4, 0])]
        (NDArray 1 1 [[1]]))
     [(NDArray 1 1 [[0]], [0]), (NDArray 1 2 [[1, 1]], [ln 4, 0])] (NDArray 1 1 [[1]]) =
   Inr (NDArray 1 2 [[ln 4 - ln 5, - ln 5]], [NDArray 1 1 [[1]], NDArray 1 1 [[0]]]) \<and>
   normalized_rows (NDArray 1 2 [[ln 4 - ln 5, - ln 5]]) \<and>
   neural_net_predict_and_activations_store example_store [3, 4] [(1, 0), (2, 1)] 0 =
     Inr ((7, [0, 5]),
          example_store\<lparr>mats := mats example_store @ [NDArray 1 1 [[0]], NDArray 1 2 [[tanh (ln 4), 0]],
                                    NDArray 1 2 [[ln 4 - ln 5, - ln 5]]]\<rparr>) \<and>
   neural_net_predict_and_activations (get_mats example_store [3, 4]) (get_params example_store [(1, 0), (2, 1)])
     (mats example_store ! 0) =
   Inr (NDArray 1 2 [[ln 4 - ln 5, - ln 5]], [NDArray 1 1 [[1]], NDArray 1 1 [[0]]])"
proof -
  define params where "params = [(NDArray 1 1 [[0]], [0 :: real]), (NDArray 1 2 [[1, 1]], [ln 4, 0])]"
  define x where "x = NDArray 1 1 [[1]]"
  define ebs where "ebs = zero_extra_biases params x"
  define st' where "st' = example_store\<lparr>mats := mats example_store @ [NDArray 1 1 [[0]], NDArray 1 2 [[tanh (ln 4), 0]],
                                    NDArray 1 2 [[ln 4 - ln 5, - ln 5]]]\<rparr>"
  have h: "params \<noteq> [] \<and> length ebs = length params \<and>
      net_shapes_ok (nrows x) (ncols x) (zip params ebs) \<and> 0 < ncols (fst (last params))"
    by (simp add: params_def ebs_def x_def zero_extra_biases_def)
  have ok: "refs_ok example_store [3, 4] [(1, 0), (2, 1)] 0"
    by (simp add: refs_ok_def example_store_def)
  have spec: "log_softmax (last_pre_activation x (zip params ebs)) = NDArray 1 2 [[ln 4 - ln 5, - ln 5]]"
    "layer_inputs x (zip params ebs) = [NDArray 1 1 [[1]], NDArray 1 1 [[0]]]"
    using two_layer_spec unfolding params_def ebs_def x_def by simp_all
  have store: "neural_net_predict_and_activations_store example_store [3, 4] [(1, 0), (2, 1)] 0 =
      Inr ((7, [0, 5]), st')"
    unfolding st'_def by (rule two_layer_store_run)
  have deref: "mats st' ! 7 = NDArray 1 2 [[ln 4 - ln 5, - ln 5]]"
    "get_mats st' [0, 5] = [NDArray 1 1 [[1]], NDArray 1 1 [[0]]]"
    by (simp_all add: st'_def example_store_def get_mats_def)
  note inst = neural_net_predict_and_activations_spec
    [of params ebs x example_store "[3, 4]" "[(1, 0), (2, 1)]" 0]
  from inst h have run: "neural_net_predict_and_activations ebs params x =
      Inr (NDArray 1 2 [[ln 4 - ln 5, - ln 5]], [NDArray 1 1 [[1]], NDArray 1 1 [[0]]])"
    and norm: "normalized_rows (NDArray 1 2 [[ln 4 - ln 5, - ln 5]])"
    unfolding spec by blast+
  from inst ok have pure: "neural_net_predict_and_activations (get_mats example_store [3, 4])
      (get_params example_store [(1, 0), (2, 1)]) (mats example_store ! 0) =
      Inr (NDArray 1 2 [[ln 4 - ln 5, - ln 5]], [NDArray 1 1 [[1]], NDArray 1 1 [[0]]])"
    unfolding store by (simp add: deref)
  show ?thesis
    using run norm store pure unfolding params_def ebs_def x_def st'_def by simp
qed

section \<open>Permuting the examples of a batch (claim C8)\<close>

text \<open>
  Claim C8, as the code has it. The log-likelihood of \<open>model_predictive_log_likelihood\<close>
  is unchanged when the rows of the input batch, the rows of every perturbation tensor and
  the uniform draws of the examples are permuted by one permutation: each example keeps
  its own draw. (Also when the call raises: it raises the same exception.)
\<close>

theorem log_likelihood_permutation_invariant:
  "is_permutation p (nrows inputs) \<and> list_all (\<lambda>eb. nrows eb = nrows inputs) extra_biases \<longrightarrow>
     log_likelihood_of (model_predictive_log_likelihood (map (permute_rows p) extra_biases) params
        (permute_rows p inputs) (permute_draws p g)) =
     log_likelihood_of (model_predictive_log_likelihood extra_biases params inputs g)"
proof
  assume h: "is_permutation p (nrows inputs) \<and> list_all (\<lambda>eb. nrows eb = nrows inputs) extra_biases"
  then have pn: "is_permutation p (nrows inputs)"
    and eb: "list_all (\<lambda>eb. nrows eb = nrows inputs) extra_biases"
    by simp_all
  note net = neural_net_permute_rows [OF pn eb, of params]
  show "log_likelihood_of (model_predictive_log_likelihood (map (permute_rows p) extra_biases) params
        (permute_rows p inputs) (permute_draws p g)) =
     log_likelihood_of (model_predictive_log_likelihood extra_biases params inputs g)"
  proof (cases "neural_net_predict_and_activations extra_biases params inputs")
    case (Inl e)
    then show ?thesis
      by (simp add: model_predictive_log_likelihood_def net log_likelihood_of_def)
  next
    case (Inr r)
    obtain logprobs acts where r: "r = (logprobs, acts)" by (cases r)
    have nl: "nrows logprobs = nrows inputs"
      using neural_net_nrows [OF _ eb] Inr r by simp
    then have pl: "is_permutation p (nrows logprobs)"
      using pn by simp
    note smp = sample_discrete_permute [OF pl, of g]
    show ?thesis
    proof (cases "sample_discrete_from_log logprobs g")
      case (Inl e)
      then show ?thesis
        using Inr r
        by (simp add: model_predictive_log_likelihood_def net smp getval_def log_likelihood_of_def)
    next
      case t: (Inr tg)
      obtain targets g' where tg: "tg = (targets, g')" by (cases tg)
      have nt: "nrows targets = nrows inputs"
        using sample_discrete_nrows [of logprobs g targets g'] t tg nl by simp
      have br: "broadcast (*) (permute_rows p logprobs) (permute_rows p targets) =
                map_sum id (permute_rows p) (broadcast (*) logprobs targets)"
        by (rule broadcast_permute_rows [OF pn nl nt])
      show ?thesis
      proof (cases "broadcast (*) logprobs targets")
        case (Inl e)
        then show ?thesis
          using Inr r t tg br
          by (simp add: model_predictive_log_likelihood_def net smp getval_def log_likelihood_of_def)
      next
        case pr: (Inr prod)
        have "nrows prod = nrows inputs"
          using broadcast_nrows [OF pr] nl nt by (simp add: bdim_def)
        then have "np_sum (permute_rows p prod) = np_sum prod"
          using pn by (intro np_sum_permute_rows) simp
        then show ?thesis
          using Inr r t tg br pr
          by (simp add: model_predictive_log_likelihood_def net smp getval_def log_likelihood_of_def)
      qed
    qed
  qed
qed

theorem log_likelihood_permutation_invariant_witness:
  "log_likelihood_of (model_predictive_log_likelihood
     (map (permute_rows [1, 0]) [NDArray 2 2 [[0, 0], [0, 0]]])
     [(NDArray 1 2 [[ln 4, 0]], [0, 0])] (permute_rows [1, 0] (NDArray 2 1 [[0], [1]]))
     (permute_draws [1, 0] (\<lambda>k. if k = 0 then 3 / 5 else 9 / 10))) =
   log_likelihood_of (model_predictive_log_likelihood [NDArray 2 2 [[0, 0], [0, 0]]]
     [(NDArray 1 2 [[ln 4, 0]], [0, 0])] (NDArray 2 1 [[0], [1]])
     (\<lambda>k. if k = 0 then 3 / 5 else 9 / 10)) \<and>
   log_likelihood_of (model_predictive_log_likelihood [NDArray 2 2 [[0, 0], [0, 0]]]
     [(NDArray 1 2 [[ln 4, 0]], [0, 0])] (NDArray 2 1 [[0], [1]])
     (\<lambda>k. if k = 0 then 3 / 5 else 9 / 10)) = Inr (- ln 2 - ln 5)"
proof -
  have p: "is_permutation [1, 0] (nrows (NDArray 2 1 [[0], [1]]))"
    by (simp add: is_permutation_def upt_conv_Cons)
  have e: "list_all (\<lambda>eb. nrows eb = nrows (NDArray 2 1 [[0], [1]])) [NDArray 2 2 [[0, 0], [0, 0]]]"
    by simp
  show ?thesis
    using log_likelihood_permutation_invariant [of "[1, 0]" "NDArray 2 1 [[0], [1]]"
        "[NDArray 2 2 [[0, 0], [0, 0]]]" "[(NDArray 1 2 [[ln 4, 0]], [0, 0])]"
        "\<lambda>k. if k = 0 then 3 / 5 else 9 / 10"] p e ll_original
    by blast
qed

text \<open>
  Claim C8 as stated keeps the generator fixed. The draws are then assigned to the rows by
  position, and a permuted batch meets other draws: below, the example with probabilities
  \<open>(1/2, 1/2)\<close> and the example with probabilities \<open>(4/5, 1/5)\<close> meet the draws 3/5 and
  9/10 in one order and in the other, and the two log-likelihoods differ by \<open>ln 4\<close>.
\<close>

theorem log_likelihood_permutation_counterexample:
  "is_permutation [1, 0] 2 \<and>
   log_likelihood_of (model_predictive_log_likelihood [NDArray 2 2 [[0, 0], [0, 0]]]
     [(NDArray 1 2 [[ln 4, 0]], [0, 0])] (NDArray 2 1 [[0], [1]])
     (\<lambda>k. if k = 0 then 3 / 5 else 9 / 10)) = Inr (- ln 2 - ln 5) \<and>
   log_likelihood_of (model_predictive_log_likelihood
     (map (permute_rows [1, 0]) [NDArray 2 2 [[0, 0], [0, 0]]])
     [(NDArray 1 2 [[ln 4, 0]], [0, 0])] (permute_rows [1, 0] (NDArray 2 1 [[0], [1]]))
     (\<lambda>k. if k = 0 then 3 / 5 else 9 / 10)) = Inr (ln 4 - ln 5 - ln 2) \<and>
   - ln 2 - ln 5 \<noteq> ln 4 - ln 5 - (ln 2 :: real)"
proof -
  have "is_permutation [1, 0] 2"
    by (simp add: is_permutation_def upt_conv_Cons)
  moreover have "- ln 2 - ln 5 \<noteq> ln 4 - ln 5 - (ln 2 :: real)"
  proof -
    have "0 < ln (4 :: real)" by simp
    then show ?thesis by linarith
  qed
  ultimately show ?thesis
    using ll_original ll_rows_swapped by blast
qed

section \<open>The update returns fresh estimates (claim C9)\<close>

text \<open>
  Claim C9, as the code has it. \<open>update_factor_estimates\<close> changes no object that exists
  before the call: the matrices held in \<^verbatim>\<open>old_estimates\<close> are after the call what they
  were before. The estimates it returns are newly allocated matrices, holding the values
  of the update rule; the caller keeps them by binding its variable to the result.
\<close>

theorem update_factor_estimates_fresh:
  "update_factor_estimates_heap h (As, Gs) samples eps = Inr ((As', Gs'), h') \<longrightarrow>
     take (length h) h' = h \<and>
     list_all (\<lambda>r. r < length h \<longrightarrow> h' ! r = h ! r) (As @ Gs) \<and>
     list_all (\<lambda>r. length h \<le> r \<and> r < length h') (As' @ Gs') \<and>
     update_factor_estimates (map (\<lambda>r. h ! r) As, map (\<lambda>r. h ! r) Gs) samples eps =
       Inr (map (\<lambda>r. h' ! r) As', map (\<lambda>r. h' ! r) Gs')"
proof
  assume a: "update_factor_estimates_heap h (As, Gs) samples eps = Inr ((As', Gs'), h')"
  then obtain va vg where
    u: "update_factor_estimates (map (\<lambda>r. h ! r) As, map (\<lambda>r. h ! r) Gs) samples eps = Inr (va, vg)"
    by (cases "update_factor_estimates (map (\<lambda>r. h ! r) As, map (\<lambda>r. h ! r) Gs) samples eps")
       (auto simp: update_factor_estimates_heap_def)
  from a u have As': "As' = map (\<lambda>i. length h + i) [0..<length va]"
    and Gs': "Gs' = map (\<lambda>i. length h + length va + i) [0..<length vg]"
    and h': "h' = h @ va @ vg"
    by (simp_all add: update_factor_estimates_heap_def alloc_all_eq)
  have "map (\<lambda>r. h' ! r) As' = va"
    unfolding As' h' by (intro nth_equalityI) (simp_all add: nth_append)
  moreover have "map (\<lambda>r. h' ! r) Gs' = vg"
    unfolding Gs' h' by (intro nth_equalityI) (simp_all add: nth_append)
  moreover have "take (length h) h' = h"
    by (simp add: h')
  moreover have "list_all (\<lambda>r. r < length h \<longrightarrow> h' ! r = h ! r) (As @ Gs)"
    by (simp add: list_all_iff h' nth_append)
  moreover have "list_all (\<lambda>r. length h \<le> r \<and> r < length h') (As' @ Gs')"
    by (auto simp: list_all_iff h' As' Gs')
  ultimately show "take (length h) h' = h \<and>
     list_all (\<lambda>r. r < length h \<longrightarrow> h' ! r = h ! r) (As @ Gs) \<and>
     list_all (\<lambda>r. length h \<le> r \<and> r < length h') (As' @ Gs') \<and>
     update_factor_estimates (map (\<lambda>r. h ! r) As, map (\<lambda>r. h ! r) Gs) samples eps =
       Inr (map (\<lambda>r. h' ! r) As', map (\<lambda>r. h' ! r) Gs')"
    using u by simp
qed

theorem update_factor_estimates_fresh_witness:
  "update_factor_estimates_heap [Arr (NDArray 2 2 [[1, 0], [0, 1]]), Arr (NDArray 1 1 [[1]])] ([0], [1])
     ([[NDArray 1 1 [[3]]]], [[NDArray 1 1 [[2]]]]) (1 / 2) =
   Inr (([2], [3]),
        [Arr (NDArray 2 2 [[1, 0], [0, 1]]), Arr (NDArray 1 1 [[1]]),
         Arr (NDArray 2 2 [[5, 3 / 2], [3 / 2, 1]]), Arr (NDArray 1 1 [[5 / 2]])]) \<and>
   take 2 [Arr (NDArray 2 2 [[1, 0], [0, 1]]), Arr (NDArray 1 1 [[1]]),
           Arr (NDArray 2 2 [[5, 3 / 2], [3 / 2, 1]]), Arr (NDArray 1 1 [[5 / 2]])] =
     [Arr (NDArray 2 2 [[1, 0], [0, 1]]), Arr (NDArray 1 1 [[1]])]"
  using update_factor_estimates_fresh [of "[Arr (NDArray 2 2 [[1, 0], [0, 1]]), Arr (NDArray 1 1 [[1]])]"
      "[0]" "[1]" "([[NDArray 1 1 [[3]]]], [[NDArray 1 1 [[2]]]])" "1 / 2" "[2]" "[3]"
      "[Arr (NDArray 2 2 [[1, 0], [0, 1]]), Arr (NDArray 1 1 [[1]]),
        Arr (NDArray 2 2 [[5, 3 / 2], [3 / 2, 1]]), Arr (NDArray 1 1 [[5 / 2]])]"] heap_run
  by simp

text \<open>
  Claim C9 as stated, that the matrices held in \<^verbatim>\<open>old_estimates\<close> are themselves updated,
  fails: the store below holds the old activation factor at position 0 and the old
  gradient factor at position 1; after the call position 0 still holds the identity, and
  the updated factor stands at the new position 2. The script's step binds
  \<^verbatim>\<open>factor_estimates\<close> to the new positions.
\<close>

theorem update_factor_estimates_in_place_counterexample:
  "update_factor_estimates_heap [Arr (NDArray 2 2 [[1, 0], [0, 1]]), Arr (NDArray 1 1 [[1]])] ([0], [1])
     ([[NDArray 1 1 [[3]]]], [[NDArray 1 1 [[2]]]]) (1 / 2) =
   Inr (([2], [3]),
        [Arr (NDArray 2 2 [[1, 0], [0, 1]]), Arr (NDArray 1 1 [[1]]),
         Arr (NDArray 2 2 [[5, 3 / 2], [3 / 2, 1]]), Arr (NDArray 1 1 [[5 / 2]])]) \<and>
   [Arr (NDArray 2 2 [[1, 0], [0, 1]]), Arr (NDArray 1 1 [[1]]),
    Arr (NDArray 2 2 [[5, 3 / 2], [3 / 2, 1]]), Arr (NDArray 1 1 [[5 / 2]])] ! 0 =
     Arr (NDArray 2 2 [[1, 0], [0, 1]]) \<and>
   Arr (NDArray 2 2 [[1, 0], [0, 1]]) \<noteq> Arr (NDArray 2 2 [[5, 3 / 2], [3 / 2, 1]]) \<and>
   main_update ([Arr (NDArray 2 2 [[1, 0], [0, 1]]), Arr (NDArray 1 1 [[1]])], ([0], [1]))
     ([[NDArray 1 1 [[3]]]], [[NDArray 1 1 [[2]]]]) =
   Inr ([Arr (NDArray 2 2 [[1, 0], [0, 1]]), Arr (NDArray 1 1 [[1]]),
         Arr (NDArray 2 2 [[43 / 5, 57 / 20], [57 / 20, 1]]), Arr (NDArray 1 1 [[77 / 20]])],
        ([2], [3]))"
  by code_simp

section \<open>The division by the sample count (claim C10)\<close>

text \<open>
  Claim C10. The sample count is read from the first layer's batches alone, and the
  division by it is not guarded. When the first layer holds no sample row, whatever the
  other layers hold, \<open>estimate_block_kron_factors\<close> raises, or every value it returns
  holds no finite entry; so a returned value with a finite entry requires a batch of the
  first layer with at least one row. With no layer list at all the read of the first
  layer raises. On freshly initialised sample lists \<open>update_factor_estimates\<close> raises.
\<close>

theorem estimate_division_unguarded:
  "(estimate_block_kron_factors [] append_homog = Inl IndexError) \<and>
   (all_samples = first # rest \<and> total_rows first = 0 \<longrightarrow>
      (\<exists>e. estimate_block_kron_factors all_samples append_homog = Inl e) \<or>
      (\<exists>vs. estimate_block_kron_factors all_samples append_homog = Inr vs \<and>
            list_all no_finite_estimate vs)) \<and>
   (estimate_block_kron_factors all_samples append_homog = Inr vs \<and>
    list_ex (\<lambda>v. \<not> no_finite_estimate v) vs \<longrightarrow>
      list_ex (\<lambda>b. 0 < nrows b) (hd all_samples)) \<and>
   update_factor_estimates old_estimates (init_sample_lists layer_sizes) eps =
     Inl (if length layer_sizes \<le> 1 then IndexError else ZeroDivisionError)"
proof (intro conjI impI)
  show "estimate_block_kron_factors [] append_homog = Inl IndexError"
    by (simp add: estimate_block_kron_factors_def)
next
  assume h: "all_samples = first # rest \<and> total_rows first = 0"
  show "(\<exists>e. estimate_block_kron_factors all_samples append_homog = Inl e) \<or>
      (\<exists>vs. estimate_block_kron_factors all_samples append_homog = Inr vs \<and>
            list_all no_finite_estimate vs)"
  proof (cases "estimate_block_kron_factors all_samples append_homog")
    case (Inl e)
    then show ?thesis by simp
  next
    case (Inr vs)
    with estimate_zero [of all_samples first rest append_homog vs] h show ?thesis by simp
  qed
next
  assume h: "estimate_block_kron_factors all_samples append_homog = Inr vs \<and>
    list_ex (\<lambda>v. \<not> no_finite_estimate v) vs"
  then obtain first rest where a: "all_samples = first # rest"
    by (cases all_samples) (simp_all add: estimate_block_kron_factors_def)
  have "total_rows first \<noteq> 0"
  proof
    assume "total_rows first = 0"
    from estimate_zero [OF a this h [THEN conjunct1]] have "list_all no_finite_estimate vs" .
    with h show False by (auto simp: list_all_iff list_ex_iff)
  qed
  then show "list_ex (\<lambda>b. 0 < nrows b) (hd all_samples)"
    using total_rows_pos [of first] a by simp
next
  obtain As Gs where old: "old_estimates = (As, Gs)" by (cases old_estimates)
  have "butlast layer_sizes = [] \<longleftrightarrow> length layer_sizes \<le> 1"
    by (cases layer_sizes) (auto simp: le_Suc_eq)
  then show "update_factor_estimates old_estimates (init_sample_lists layer_sizes) eps =
     Inl (if length layer_sizes \<le> 1 then IndexError else ZeroDivisionError)"
    by (simp add: old init_sample_lists_def estimate_init_sample_lists)
qed

theorem estimate_division_unguarded_witness:
  "estimate_block_kron_factors [[NDArray 0 1 []], [NDArray 2 1 [[1], [1]]]] False =
     Inr [NanArr 1 1, NanArr 1 1] \<and>
   estimate_block_kron_factors [[], [NDArray 2 1 [[1], [1]]]] False = Inl ZeroDivisionError \<and>
   estimate_block_kron_factors [[NDArray 1 1 [[2]]]] False = Inr [Arr (NDArray 1 1 [[4]])] \<and>
   list_ex (\<lambda>b. 0 < nrows b) [NDArray 1 1 [[2]]]"
proof -
  have a: "estimate_block_kron_factors [[NDArray 0 1 []], [NDArray 2 1 [[1], [1]]]] False =
     Inr [NanArr 1 1, NanArr 1 1]"
    by code_simp
  have b: "estimate_block_kron_factors [[], [NDArray 2 1 [[1], [1]]]] False = Inl ZeroDivisionError"
    by code_simp
  have c: "estimate_block_kron_factors [[NDArray 1 1 [[2]]]] False = Inr [Arr (NDArray 1 1 [[4]])]"
    by code_simp
  have z: "total_rows [NDArray 0 1 []] = 0"
    by (simp add: total_rows_def)
  show ?thesis
    using estimate_division_unguarded [of False "[[NDArray 0 1 []], [NDArray 2 1 [[1], [1]]]]"
        "[NDArray 0 1 []]" "[[NDArray 2 1 [[1], [1]]]]" "[NanArr 1 1, NanArr 1 1]"]
      estimate_division_unguarded [of False "[[NDArray 1 1 [[2]]]]" "[NDArray 1 1 [[2]]]" "[]"
        "[Arr (NDArray 1 1 [[4]])]"] a b c z
    by simp
qed

end
